theory Spec2Isabelle
  imports Complex_Main "HOL-Library.Product_Lexorder"
begin

section \<open>The board of \<open>go_board.py\<close>\<close>

text \<open>
  Cells are Python ints: 0 empty, 1 black, 2 white. The grid is a list of rows,
  read as \<open>board[y][x]\<close>. Coordinates are Python ints, hence \<open>int\<close>; every read of
  the grid in the source is guarded by a bounds check, so the index is never negative
  where \<open>cell\<close> is evaluated.
\<close>

type_synonym grid = "int list list"
type_synonym pos = "int \<times> int"

record move_entry =
  x :: int
  y :: int
  player :: int
  captured :: int

record go_board =
  size_b :: int
  board :: grid
  current_player :: int
  move_history :: "move_entry list"
  captured_black :: int
  captured_white :: int
  ko_point :: "pos option"
  last_move :: "pos option"

text \<open>The two messages of \<open>place_stone\<close>; the second carries the number it prints.\<close>

datatype message = Invalid_position | Placed nat

definition init_board :: "int \<Rightarrow> go_board" where
  "init_board n =
     \<lparr>size_b = n,
      board = replicate (nat n) (replicate (nat n) 0),
      current_player = 1,
      move_history = [],
      captured_black = 0,
      captured_white = 0,
      ko_point = None,
      last_move = None\<rparr>"

definition cell :: "grid \<Rightarrow> int \<Rightarrow> int \<Rightarrow> int" where
  "cell g cx cy = g ! nat cy ! nat cx"

definition set_cell :: "grid \<Rightarrow> int \<Rightarrow> int \<Rightarrow> int \<Rightarrow> grid" where
  "set_cell g cx cy v = g[nat cy := (g ! nat cy)[nat cx := v]]"

definition in_bounds :: "int \<Rightarrow> int \<Rightarrow> int \<Rightarrow> bool" where
  "in_bounds n cx cy \<longleftrightarrow> 0 \<le> cx \<and> cx < n \<and> 0 \<le> cy \<and> cy < n"

definition directions :: "pos list" where
  "directions = [(0, 1), (0, -1), (1, 0), (-1, 0)]"

definition neighbours :: "int \<Rightarrow> int \<Rightarrow> pos list" where
  "neighbours cx cy = map (\<lambda>(dx, dy). (cx + dx, cy + dy)) directions"

subsection \<open>Flood fill of a group\<close>

text \<open>
  The loop of \<open>_get_group_at\<close>. The Python list \<open>stack\<close> pops from its end, so the
  head of the list here is the end of the Python list: the four neighbours are pushed in
  the order of \<open>directions\<close> and the last one pushed is popped first.
\<close>

function get_group_loop :: "int \<Rightarrow> grid \<Rightarrow> int \<Rightarrow> pos list \<Rightarrow> pos set \<Rightarrow> pos set" where
  "get_group_loop n g p [] grp = grp"
| "get_group_loop n g p ((cx, cy) # stack) grp =
     (if (cx, cy) \<in> grp then get_group_loop n g p stack grp
      else if \<not> in_bounds n cx cy then get_group_loop n g p stack grp
      else if cell g cx cy \<noteq> p then get_group_loop n g p stack grp
      else get_group_loop n g p
             (rev (filter (\<lambda>q. q \<notin> insert (cx, cy) grp) (neighbours cx cy)) @ stack)
             (insert (cx, cy) grp))"
  by pat_completeness auto

definition cells_of :: "int \<Rightarrow> pos set" where
  "cells_of n = {0..<n} \<times> {0..<n}"

lemma finite_cells_of: "finite (cells_of n)"
  by (simp add: cells_of_def)

lemma in_bounds_cells_of: "in_bounds n cx cy \<longleftrightarrow> (cx, cy) \<in> cells_of n"
  by (auto simp: in_bounds_def cells_of_def)

lemma card_cells_insert_less:
  assumes "(cx, cy) \<in> cells_of n" and "(cx, cy) \<notin> S"
  shows "card (cells_of n - insert (cx, cy) S) < card (cells_of n - S)"
proof (rule psubset_card_mono)
  show "finite (cells_of n - S)" using finite_cells_of by blast
  show "cells_of n - insert (cx, cy) S \<subset> cells_of n - S" using assms by blast
qed

termination get_group_loop
proof (relation "(\<lambda>(n, g, p, stack, grp). card (cells_of n - grp)) <*mlex*> measure (\<lambda>(n, g, p, stack, grp). length stack)")
  show "wf ((\<lambda>(n, g, p, stack, grp). card (cells_of n - grp)) <*mlex*> measure (\<lambda>(n, g, p, stack, grp). length stack))"
    by (simp add: wf_mlex)
next
  fix n :: int and g :: grid and p :: int and cx cy :: int and stack :: "pos list" and grp :: "pos set"
  assume "(cx, cy) \<notin> grp" and "\<not> \<not> in_bounds n cx cy"
  then have "card (cells_of n - insert (cx, cy) grp) < card (cells_of n - grp)"
    using card_cells_insert_less in_bounds_cells_of by blast
  then show "((n, g, p, rev (filter (\<lambda>q. q \<notin> insert (cx, cy) grp) (neighbours cx cy)) @ stack, insert (cx, cy) grp),
              (n, g, p, (cx, cy) # stack, grp))
             \<in> (\<lambda>(n, g, p, stack, grp). card (cells_of n - grp)) <*mlex*> measure (\<lambda>(n, g, p, stack, grp). length stack)"
    by (simp add: mlex_iff del: Diff_insert0 card_Diff_insert)
qed (simp_all add: mlex_iff)

declare get_group_loop.simps [simp del]

definition get_group_at :: "int \<Rightarrow> grid \<Rightarrow> int \<Rightarrow> int \<Rightarrow> int \<Rightarrow> pos set" where
  "get_group_at n g gx gy p =
     (if cell g gx gy \<noteq> p then {} else get_group_loop n g p [(gx, gy)] {})"

subsection \<open>Liberties\<close>

text \<open>
  \<open>_group_has_liberty_excluding\<close> and \<open>_group_has_liberty\<close> return at the first empty
  neighbour found and \<open>False\<close> after the loops: an existence test over the group and the
  four directions. The \<open>player\<close> argument is unused in the source and kept.
\<close>

definition group_has_liberty_excluding :: "int \<Rightarrow> grid \<Rightarrow> pos set \<Rightarrow> int \<Rightarrow> int \<Rightarrow> int \<Rightarrow> bool" where
  "group_has_liberty_excluding n g grp p exclude_x exclude_y \<longleftrightarrow>
     (\<exists>(gx, gy) \<in> grp. \<exists>(nx, ny) \<in> set (neighbours gx gy).
        (nx, ny) \<noteq> (exclude_x, exclude_y) \<and> in_bounds n nx ny \<and> cell g nx ny = 0)"

definition group_has_liberty :: "int \<Rightarrow> grid \<Rightarrow> pos set \<Rightarrow> int \<Rightarrow> bool" where
  "group_has_liberty n g grp p \<longleftrightarrow>
     (\<exists>(gx, gy) \<in> grp. \<exists>(nx, ny) \<in> set (neighbours gx gy).
        in_bounds n nx ny \<and> cell g nx ny = 0)"

definition has_any_liberty :: "int \<Rightarrow> grid \<Rightarrow> int \<Rightarrow> int \<Rightarrow> int \<Rightarrow> bool" where
  "has_any_liberty n g hx hy p = group_has_liberty n g (get_group_at n g hx hy p) p"

definition count_liberties_of_group :: "int \<Rightarrow> grid \<Rightarrow> pos set \<Rightarrow> int" where
  "count_liberties_of_group n g grp =
     int (card (\<Union>(gx, gy) \<in> grp.
        {(nx, ny) \<in> set (neighbours gx gy). in_bounds n nx ny \<and> cell g nx ny = 0}))"

definition can_capture_anything :: "int \<Rightarrow> grid \<Rightarrow> int \<Rightarrow> int \<Rightarrow> int \<Rightarrow> bool" where
  "can_capture_anything n g cx cy opponent \<longleftrightarrow>
     (\<exists>(nx, ny) \<in> set (neighbours cx cy).
        in_bounds n nx ny \<and> cell g nx ny = opponent \<and>
        \<not> group_has_liberty_excluding n g (get_group_at n g nx ny opponent) opponent cx cy)"

subsection \<open>Legality\<close>

definition is_valid_move :: "go_board \<Rightarrow> int \<Rightarrow> int \<Rightarrow> bool" where
  "is_valid_move b mx my =
     (if \<not> in_bounds (size_b b) mx my then False
      else if cell (board b) mx my \<noteq> 0 then False
      else if ko_point b \<noteq> None \<and> Some (mx, my) = ko_point b then False
      else
        let temp_board = set_cell (board b) mx my (current_player b);
            opponent = 3 - current_player b;
            can_capture = can_capture_anything (size_b b) temp_board mx my opponent
        in if \<not> can_capture
           then (if \<not> has_any_liberty (size_b b) temp_board mx my (current_player b)
                 then False else True)
           else True)"

subsection \<open>Capture\<close>

text \<open>
  The loop over the four directions in \<open>_find_and_capture_stones\<close>, with its two
  accumulators: the captured cells and the groups already examined (a set of frozen
  sets in the source).
\<close>

fun capture_loop ::
  "int \<Rightarrow> grid \<Rightarrow> int \<Rightarrow> int \<Rightarrow> int \<Rightarrow> pos list \<Rightarrow> pos set \<Rightarrow> pos set set \<Rightarrow> pos set" where
  "capture_loop n g cx cy opponent [] all_captured checked_groups = all_captured"
| "capture_loop n g cx cy opponent ((nx, ny) # rest) all_captured checked_groups =
     (if \<not> in_bounds n nx ny then capture_loop n g cx cy opponent rest all_captured checked_groups
      else if cell g nx ny \<noteq> opponent then capture_loop n g cx cy opponent rest all_captured checked_groups
      else if (nx, ny) \<in> all_captured then capture_loop n g cx cy opponent rest all_captured checked_groups
      else
        let opponent_group = get_group_at n g nx ny opponent in
        if opponent_group \<in> checked_groups
        then capture_loop n g cx cy opponent rest all_captured checked_groups
        else if \<not> group_has_liberty_excluding n g opponent_group opponent cx cy
        then capture_loop n g cx cy opponent rest (all_captured \<union> opponent_group)
               (insert opponent_group checked_groups)
        else capture_loop n g cx cy opponent rest all_captured
               (insert opponent_group checked_groups))"

text \<open>
  Removal of the captured stones: the source assigns 0 to \<open>board[cy][cx]\<close> for each
  element of the set, in the set's iteration order; the enumeration here is the sorted
  one, and \<open>fold_clear_cell\<close> below shows that any enumeration gives the same grid.
\<close>

definition remove_stones :: "pos set \<Rightarrow> grid \<Rightarrow> grid" where
  "remove_stones cs g = fold (\<lambda>(cx, cy) g'. set_cell g' cx cy 0) (sorted_list_of_set cs) g"

definition find_and_capture_stones :: "int \<Rightarrow> grid \<Rightarrow> int \<Rightarrow> int \<Rightarrow> int \<Rightarrow> pos set \<times> grid" where
  "find_and_capture_stones n g cx cy opponent =
     (let all_captured = capture_loop n g cx cy opponent (neighbours cx cy) {} {}
      in (all_captured, remove_stones all_captured g))"

subsection \<open>Moves\<close>

definition place_stone :: "go_board \<Rightarrow> int \<Rightarrow> int \<Rightarrow> (bool \<times> message) \<times> go_board" where
  "place_stone b mx my =
     (if \<not> is_valid_move b mx my then ((False, Invalid_position), b)
      else
        let me = current_player b;
            opponent = 3 - me;
            (capt, g2) = find_and_capture_stones (size_b b) (set_cell (board b) mx my me) mx my opponent;
            b1 = b\<lparr>board := g2\<rparr>;
            b2 = (if capt \<noteq> {} then
                    let captured_count = int (card capt);
                        b' = (if me = 1
                              then b1\<lparr>captured_black := captured_black b1 + captured_count\<rparr>
                              else b1\<lparr>captured_white := captured_white b1 + captured_count\<rparr>)
                    in if captured_count = 1 then
                         let my_group = get_group_at (size_b b) g2 mx my me in
                         if count_liberties_of_group (size_b b) g2 my_group = 1
                         then b'\<lparr>ko_point := Some (the_elem capt)\<rparr>
                         else b'\<lparr>ko_point := None\<rparr>
                       else b'\<lparr>ko_point := None\<rparr>
                  else b1\<lparr>ko_point := None\<rparr>);
            b3 = b2\<lparr>move_history := move_history b2 @
                       [\<lparr>x = mx, y = my, player = me, captured = int (card capt)\<rparr>]\<rparr>;
            b4 = b3\<lparr>last_move := Some (mx, my)\<rparr>;
            b5 = b4\<lparr>current_player := opponent\<rparr>
        in ((True, Placed (card capt)), b5))"

definition pass_move :: "go_board \<Rightarrow> go_board" where
  "pass_move b =
     (let b1 = b\<lparr>move_history := move_history b @
                   [\<lparr>x = -1, y = -1, player = current_player b, captured = 0\<rparr>]\<rparr>;
          b2 = b1\<lparr>current_player := 3 - current_player b1\<rparr>
      in b2\<lparr>ko_point := None\<rparr>)"

definition get_valid_moves :: "go_board \<Rightarrow> pos list" where
  "get_valid_moves b =
     concat (map (\<lambda>vy. map (\<lambda>vx. (vx, vy)) (filter (\<lambda>vx. is_valid_move b vx vy) [0..size_b b - 1]))
       [0..size_b b - 1])"

definition is_game_over :: "go_board \<Rightarrow> bool" where
  "is_game_over b \<longleftrightarrow>
     (if length (move_history b) \<ge> 2
      then (if x (last (move_history b)) = -1 \<and> x (last (butlast (move_history b))) = -1
            then True else False)
      else False)"

subsection \<open>Territory and score\<close>

text \<open>
  The loop of \<open>_get_territory_owner\<close>: every popped cell not seen before is marked
  visited, also one outside the grid or holding a stone; only an in-range cell that holds
  neither 1 nor 2 joins the region and has its four neighbours pushed.
\<close>

function territory_loop ::
  "int \<Rightarrow> grid \<Rightarrow> pos list \<Rightarrow> pos set \<Rightarrow> bool \<Rightarrow> bool \<Rightarrow> pos set \<Rightarrow> bool \<times> bool \<times> pos set" where
  "territory_loop n g [] visited touches_black touches_white empty_region =
     (touches_black, touches_white, empty_region)"
| "territory_loop n g ((cx, cy) # stack) visited touches_black touches_white empty_region =
     (if (cx, cy) \<in> visited
      then territory_loop n g stack visited touches_black touches_white empty_region
      else if \<not> in_bounds n cx cy
      then territory_loop n g stack (insert (cx, cy) visited) touches_black touches_white empty_region
      else if cell g cx cy = 1
      then territory_loop n g stack (insert (cx, cy) visited) True touches_white empty_region
      else if cell g cx cy = 2
      then territory_loop n g stack (insert (cx, cy) visited) touches_black True empty_region
      else territory_loop n g (rev (neighbours cx cy) @ stack) (insert (cx, cy) visited)
             touches_black touches_white (insert (cx, cy) empty_region))"
  by pat_completeness auto

lemma card_cells_insert_outside:
  "(cx, cy) \<notin> cells_of n \<Longrightarrow> card (cells_of n - insert (cx, cy) S) = card (cells_of n - S)"
  by simp

termination territory_loop
proof (relation "(\<lambda>(n, g, stack, visited, tb, tw, r). card (cells_of n - visited)) <*mlex*>
                 measure (\<lambda>(n, g, stack, visited, tb, tw, r). length stack)")
  show "wf ((\<lambda>(n, g, stack, visited, tb, tw, r). card (cells_of n - visited)) <*mlex*>
            measure (\<lambda>(n, g, stack, visited, tb, tw, r). length stack))"
    by (simp add: wf_mlex)
qed (auto simp: mlex_iff in_bounds_cells_of card_cells_insert_less card_cells_insert_outside
      simp del: Diff_insert0 card_Diff_insert)

declare territory_loop.simps [simp del]

definition get_territory_owner :: "int \<Rightarrow> grid \<Rightarrow> int \<Rightarrow> int \<Rightarrow> int" where
  "get_territory_owner n g tx ty =
     (if cell g tx ty \<noteq> 0 then 0
      else
        let (touches_black, touches_white, empty_region) =
              territory_loop n g [(tx, ty)] {} False False {}
        in if touches_black \<and> \<not> touches_white then 1
           else if touches_white \<and> \<not> touches_black then 2
           else 0)"

text \<open>
  \<open>get_score\<close>. Black's score stays a Python int; White's starts from
  \<open>captured_white + 6.5\<close> and is a float. Every value it takes is an integer plus one
  half, which binary floating point represents exactly (below \<open>2\<^sup>5\<^sup>2\<close>), so the float
  is modelled by the rational it denotes.
\<close>

definition score_cell :: "int \<Rightarrow> grid \<Rightarrow> int \<times> rat \<Rightarrow> int \<Rightarrow> int \<Rightarrow> int \<times> rat" where
  "score_cell n g acc sx sy =
     (let (black_score, white_score) = acc in
      if cell g sx sy = 1 then (black_score + 1, white_score)
      else if cell g sx sy = 2 then (black_score, white_score + 1)
      else
        let territory = get_territory_owner n g sx sy in
        if territory = 1 then (black_score + 1, white_score)
        else if territory = 2 then (black_score, white_score + 1)
        else (black_score, white_score))"

definition get_score :: "go_board \<Rightarrow> int \<times> rat" where
  "get_score b =
     fold (\<lambda>sy acc. fold (\<lambda>sx acc'. score_cell (size_b b) (board b) acc' sx sy) [0..size_b b - 1] acc)
       [0..size_b b - 1]
       (captured_black b, of_int (captured_white b) + 13 / 2)"

section \<open>The move selector of \<open>go_ai.py\<close>\<close>

text \<open>
  \<open>AdvancedAI\<close> keeps a reference to the board, its own colour, the difficulty, and the
  two values its constructor computes once: the number of moves made so far and the game
  phase. The board it refers to is changed by the game afterwards, so the functions below
  take the board's current state as an argument beside the record of the other fields.
  Scores are Python ints and floats; they are modelled by the rationals they denote.
\<close>

record advanced_ai =
  ai_player :: int
  ai_difficulty :: string
  ai_opponent :: int
  ai_move_count :: int
  ai_game_phase :: string

definition determine_game_phase :: "int \<Rightarrow> string" where
  "determine_game_phase mc =
     (if mc < 40 then ''opening'' else if mc < 120 then ''middlegame'' else ''endgame'')"

definition advanced_ai_init :: "go_board \<Rightarrow> int \<Rightarrow> string \<Rightarrow> advanced_ai" where
  "advanced_ai_init b pl diff =
     \<lparr>ai_player = pl, ai_difficulty = diff, ai_opponent = 3 - pl,
      ai_move_count = int (length (move_history b)),
      ai_game_phase = determine_game_phase (int (length (move_history b)))\<rparr>"

text \<open>
  Exceptions: \<open>_evaluate_shape\<close> formats its reason with the name \<open>effiveness\<close>,
  which is bound nowhere (\<open>NameError\<close>); indexing \<open>None\<close> or an empty list gives the
  other two, on paths \<open>get_move\<close> never takes.
\<close>

datatype py_error = NameError | TypeError | IndexError

text \<open>
  The reasons and explanations are Chinese strings built from fixed phrases and numbers;
  each phrase is a constructor here, a joined string is the list of its phrases.
\<close>

datatype reason =
    Can_capture int | Can_save int | Will_be_captured | Cuts | Connects | Laddered
  | Corner_star | Side_star | Good_point | Third_fourth_line | Near_fight | Endgame_value rat
  | Good_shape | Bad_shape | Keeps_initiative | Controls rat

datatype analysis = Analysis int int "reason list list" | Overall int int

datatype explanation =
    No_valid_moves | Try_this int int | Looks_good int int | Best_overall int int
  | Best_by_analysis int int | With_analysis int int analysis

subsection \<open>Groups on a board snapshot\<close>

function get_group_board_loop :: "int \<Rightarrow> grid \<Rightarrow> int \<Rightarrow> pos list \<Rightarrow> pos set \<Rightarrow> pos set \<Rightarrow> pos set" where
  "get_group_board_loop n g p [] visited grp = grp"
| "get_group_board_loop n g p ((cx, cy) # stack) visited grp =
     (if (cx, cy) \<in> visited then get_group_board_loop n g p stack visited grp
      else if in_bounds n cx cy \<and> cell g cx cy = p
      then get_group_board_loop n g p (rev (neighbours cx cy) @ stack)
             (insert (cx, cy) visited) (insert (cx, cy) grp)
      else get_group_board_loop n g p stack (insert (cx, cy) visited) grp)"
  by pat_completeness auto

lemma card_cells_insert_le:
  "card (cells_of n - insert c S) \<le> card (cells_of n - S)"
  by (rule card_mono) (use finite_cells_of in blast)+

termination get_group_board_loop
proof (relation "(\<lambda>(n, g, p, stack, visited, grp). card (cells_of n - visited)) <*mlex*>
                 measure (\<lambda>(n, g, p, stack, visited, grp). length stack)")
  show "wf ((\<lambda>(n, g, p, stack, visited, grp). card (cells_of n - visited)) <*mlex*>
            measure (\<lambda>(n, g, p, stack, visited, grp). length stack))"
    by (simp add: wf_mlex)
next
  fix n :: int and g :: grid and p :: int and cx cy :: int and stack :: "pos list"
    and visited grp :: "pos set"
  assume "(cx, cy) \<notin> visited" and "\<not> (in_bounds n cx cy \<and> cell g cx cy = p)"
  have "card (cells_of n - insert (cx, cy) visited) \<le> card (cells_of n - visited)"
    by (rule card_cells_insert_le)
  then show "((n, g, p, stack, insert (cx, cy) visited, grp), n, g, p, (cx, cy) # stack, visited, grp)
       \<in> (\<lambda>(n, g, p, stack, visited, grp). card (cells_of n - visited)) <*mlex*>
          measure (\<lambda>(n, g, p, stack, visited, grp). length stack)"
    by (auto simp: mlex_iff simp del: Diff_insert0 card_Diff_insert)
qed (auto simp: mlex_iff in_bounds_cells_of card_cells_insert_less
      simp del: Diff_insert0 card_Diff_insert)

declare get_group_board_loop.simps [simp del]

definition get_group_board :: "int \<Rightarrow> grid \<Rightarrow> int \<Rightarrow> int \<Rightarrow> int \<Rightarrow> pos set" where
  "get_group_board n g gx gy p = get_group_board_loop n g p [(gx, gy)] {} {}"

definition has_liberty_board :: "int \<Rightarrow> grid \<Rightarrow> int \<Rightarrow> int \<Rightarrow> int \<Rightarrow> bool" where
  "has_liberty_board n g hx hy p \<longleftrightarrow>
     (\<exists>(gx, gy) \<in> get_group_board n g hx hy p. \<exists>(nx, ny) \<in> set (neighbours gx gy).
        in_bounds n nx ny \<and> cell g nx ny = 0)"

definition count_group_liberties_board :: "go_board \<Rightarrow> int \<Rightarrow> int \<Rightarrow> int \<Rightarrow> int" where
  "count_group_liberties_board b gx gy p =
     int (card (\<Union>(ax, ay) \<in> get_group_board (size_b b) (board b) gx gy p.
        {(nx, ny) \<in> set (neighbours ax ay). in_bounds (size_b b) nx ny \<and> cell (board b) nx ny = 0}))"

subsection \<open>Tactical tests\<close>

text \<open>
  \<open>_can_capture_stones\<close> extends a list with the group of every adjacent opponent stone
  without liberty, so a group met from two sides is counted twice; only the length of
  the list is used.
\<close>

definition can_capture_stones :: "advanced_ai \<Rightarrow> go_board \<Rightarrow> int \<Rightarrow> int \<Rightarrow> bool \<times> int" where
  "can_capture_stones ai b cx cy =
     (let temp_board = set_cell (board b) cx cy (ai_player ai);
          n_captured = sum_list (map (\<lambda>(nx, ny).
              if in_bounds (size_b b) nx ny \<and> cell temp_board nx ny = ai_opponent ai \<and>
                 \<not> has_liberty_board (size_b b) temp_board nx ny (ai_opponent ai)
              then int (card (get_group_board (size_b b) temp_board nx ny (ai_opponent ai)))
              else 0) (neighbours cx cy))
      in (n_captured > 0, n_captured))"

definition can_save_stones :: "advanced_ai \<Rightarrow> go_board \<Rightarrow> int \<Rightarrow> int \<Rightarrow> bool \<times> int" where
  "can_save_stones ai b cx cy =
     (let saved_count = sum_list (map (\<lambda>(nx, ny).
              if in_bounds (size_b b) nx ny \<and> cell (board b) nx ny = ai_player ai \<and>
                 count_group_liberties_board b nx ny (ai_player ai) = 1
              then int (card (get_group_board (size_b b) (board b) nx ny (ai_player ai)))
              else 0) (neighbours cx cy))
      in (saved_count > 0, saved_count))"

definition will_be_captured :: "advanced_ai \<Rightarrow> go_board \<Rightarrow> int \<Rightarrow> int \<Rightarrow> bool" where
  "will_be_captured ai b cx cy =
     (let temp_board = set_cell (board b) cx cy (ai_player ai) in
      if \<not> has_liberty_board (size_b b) temp_board cx cy (ai_player ai)
      then
        (let n_captured = length (filter (\<lambda>(nx, ny).
              in_bounds (size_b b) nx ny \<and> cell temp_board nx ny = ai_opponent ai \<and>
              \<not> has_liberty_board (size_b b) temp_board nx ny (ai_opponent ai)) (neighbours cx cy))
         in n_captured = 0)
      else False)"

definition can_cut :: "advanced_ai \<Rightarrow> go_board \<Rightarrow> int \<Rightarrow> int \<Rightarrow> bool" where
  "can_cut ai b cx cy =
     (let enemy_neighbors = filter (\<lambda>(nx, ny).
              in_bounds (size_b b) nx ny \<and> cell (board b) nx ny = ai_opponent ai) (neighbours cx cy)
      in if length enemy_neighbors \<ge> 2
         then card ((\<lambda>(nx, ny). get_group_board (size_b b) (board b) nx ny (ai_opponent ai))
                ` set enemy_neighbors) \<ge> 2
         else False)"

definition friendly_neighbours :: "advanced_ai \<Rightarrow> go_board \<Rightarrow> int \<Rightarrow> int \<Rightarrow> nat" where
  "friendly_neighbours ai b cx cy =
     length (filter (\<lambda>(nx, ny). in_bounds (size_b b) nx ny \<and> cell (board b) nx ny = ai_player ai)
       (neighbours cx cy))"

definition can_connect :: "advanced_ai \<Rightarrow> go_board \<Rightarrow> int \<Rightarrow> int \<Rightarrow> bool" where
  "can_connect ai b cx cy \<longleftrightarrow> friendly_neighbours ai b cx cy \<ge> 2"

definition is_ladder :: "advanced_ai \<Rightarrow> go_board \<Rightarrow> int \<Rightarrow> int \<Rightarrow> bool" where
  "is_ladder ai b cx cy = False"

definition evaluate_tactical :: "advanced_ai \<Rightarrow> go_board \<Rightarrow> int \<Rightarrow> int \<Rightarrow> rat \<times> reason list" where
  "evaluate_tactical ai b cx cy =
     (let (can_capture, capture_count) = can_capture_stones ai b cx cy;
          (s1, r1) = (if can_capture then (30 + of_int capture_count * 5, [Can_capture capture_count])
                      else (0, []));
          (can_save, save_count) = can_save_stones ai b cx cy;
          (s2, r2) = (if can_save then (s1 + 25 + of_int save_count * 3, r1 @ [Can_save save_count])
                      else (s1, r1));
          (s3, r3) = (if will_be_captured ai b cx cy then (s2 - 50, r2 @ [Will_be_captured])
                      else (s2, r2));
          (s4, r4) = (if can_cut ai b cx cy then (s3 + 20, r3 @ [Cuts]) else (s3, r3));
          (s5, r5) = (if can_connect ai b cx cy then (s4 + 15, r4 @ [Connects]) else (s4, r4));
          (s6, r6) = (if is_ladder ai b cx cy then (s5 - 30, r5 @ [Laddered]) else (s5, r5))
      in (s6, r6))"

subsection \<open>Position\<close>

definition is_corner_star :: "go_board \<Rightarrow> int \<Rightarrow> int \<Rightarrow> bool" where
  "is_corner_star b cx cy =
     (if size_b b = 19 then (cx, cy) \<in> set [(3, 3), (3, 15), (15, 3), (15, 15)]
      else if size_b b = 13 then (cx, cy) \<in> set [(3, 3), (3, 9), (9, 3), (9, 9)]
      else False)"

definition is_side_star :: "go_board \<Rightarrow> int \<Rightarrow> int \<Rightarrow> bool" where
  "is_side_star b cx cy =
     (if size_b b = 19 then (cx, cy) \<in> set [(9, 3), (9, 15), (3, 9), (15, 9)]
      else if size_b b = 13 then (cx, cy) \<in> set [(6, 3), (6, 9), (3, 6), (9, 6)]
      else False)"

definition is_good_opening_point :: "go_board \<Rightarrow> int \<Rightarrow> int \<Rightarrow> bool" where
  "is_good_opening_point b cx cy =
     (if size_b b = 19
      then (cx, cy) \<in> set [(2, 3), (3, 2), (2, 15), (15, 2), (16, 3), (3, 16), (16, 15), (15, 16)]
      else False)"

definition window :: "int \<Rightarrow> int \<Rightarrow> int \<Rightarrow> pos list" where
  "window cx cy r = concat (map (\<lambda>dx. map (\<lambda>dy. (cx + dx, cy + dy)) [- r..r]) [- r..r])"

definition near_enemy_stones :: "advanced_ai \<Rightarrow> go_board \<Rightarrow> int \<Rightarrow> int \<Rightarrow> int \<Rightarrow> bool" where
  "near_enemy_stones ai b cx cy distance \<longleftrightarrow>
     (\<exists>(nx, ny) \<in> set (window cx cy distance).
        in_bounds (size_b b) nx ny \<and> cell (board b) nx ny = ai_opponent ai)"

definition count_endgame_value :: "advanced_ai \<Rightarrow> go_board \<Rightarrow> int \<Rightarrow> int \<Rightarrow> rat" where
  "count_endgame_value ai b cx cy =
     (let edge_dist = min (min cx cy) (min (size_b b - 1 - cx) (size_b b - 1 - cy));
          v = (if edge_dist \<le> 2 then 5 + 5 else 5)
      in v + 3 * of_nat (friendly_neighbours ai b cx cy))"

definition evaluate_position_advanced :: "advanced_ai \<Rightarrow> go_board \<Rightarrow> int \<Rightarrow> int \<Rightarrow> rat \<times> reason list" where
  "evaluate_position_advanced ai b cx cy =
     (if ai_game_phase ai = ''opening'' then
        (if is_corner_star b cx cy then (25, [Corner_star])
         else if is_side_star b cx cy then (20, [Side_star])
         else if is_good_opening_point b cx cy then (18, [Good_point])
         else
           let line = min (min cx cy) (min (size_b b - 1 - cx) (size_b b - 1 - cy)) in
           if 2 \<le> line \<and> line \<le> 4 then (12, [Third_fourth_line])
           else if line > 4 then (- 5, [])
           else (0, []))
      else if ai_game_phase ai = ''middlegame'' then
        (let center_dist = \<bar>cx - size_b b div 2\<bar> + \<bar>cy - size_b b div 2\<bar>;
             sc = max 0 (15 - of_int center_dist * (1 / 2))
         in if near_enemy_stones ai b cx cy 2 then (sc + 15, [Near_fight]) else (sc, []))
      else if ai_game_phase ai = ''endgame'' then
        (let territory_value = count_endgame_value ai b cx cy
         in if territory_value > 10 then (territory_value, [Endgame_value territory_value])
            else (territory_value, []))
      else (0, []))"

subsection \<open>Shape, influence, territory\<close>

definition makes_good_shape :: "advanced_ai \<Rightarrow> go_board \<Rightarrow> int \<Rightarrow> int \<Rightarrow> bool" where
  "makes_good_shape ai b cx cy \<longleftrightarrow> friendly_neighbours ai b cx cy \<ge> 2"

definition makes_bad_shape :: "advanced_ai \<Rightarrow> go_board \<Rightarrow> int \<Rightarrow> int \<Rightarrow> bool" where
  "makes_bad_shape ai b cx cy =
     (let friendly_count = friendly_neighbours ai b cx cy;
          diagonal_count = length (filter (\<lambda>(nx, ny).
              in_bounds (size_b b) nx ny \<and> cell (board b) nx ny = ai_player ai)
              (map (\<lambda>(dx, dy). (cx + dx, cy + dy)) [(1, 1), (1, - 1), (- 1, 1), (- 1, - 1)]))
      in if friendly_count = 2 \<and> diagonal_count \<ge> 1 then True else False)"

definition calculate_efficiency :: "advanced_ai \<Rightarrow> go_board \<Rightarrow> int \<Rightarrow> int \<Rightarrow> rat" where
  "calculate_efficiency ai b cx cy =
     sum_list (map (\<lambda>r.
        sum_list (map (\<lambda>(nx, ny).
           if in_bounds (size_b b) nx ny
           then (if cell (board b) nx ny = ai_player ai then 1
                 else if cell (board b) nx ny = ai_opponent ai then 1 / 2 else 0)
           else 0) (window cx cy r)) / of_int r) [1..3])"

definition evaluate_shape :: "advanced_ai \<Rightarrow> go_board \<Rightarrow> int \<Rightarrow> int \<Rightarrow> py_error + rat \<times> reason list" where
  "evaluate_shape ai b cx cy =
     (if makes_good_shape ai b cx cy then Inr (15, [Good_shape])
      else if makes_bad_shape ai b cx cy then Inr (- 15, [Bad_shape])
      else
        let efficiency = calculate_efficiency ai b cx cy in
        if efficiency > 12 then Inl NameError
        else Inr (efficiency, []))"

definition calculate_thickness :: "advanced_ai \<Rightarrow> go_board \<Rightarrow> int \<Rightarrow> int \<Rightarrow> rat" where
  "calculate_thickness ai b cx cy =
     sum_list (map (\<lambda>(nx, ny).
        if nx - cx = 0 \<and> ny - cy = 0 then 0
        else if in_bounds (size_b b) nx ny \<and> cell (board b) nx ny = ai_player ai
        then (4 - of_int (max \<bar>nx - cx\<bar> \<bar>ny - cy\<bar>)) / 2
        else 0) (window cx cy 3))"

definition keeps_initiative :: "advanced_ai \<Rightarrow> go_board \<Rightarrow> int \<Rightarrow> int \<Rightarrow> bool" where
  "keeps_initiative ai b cx cy = near_enemy_stones ai b cx cy 1"

definition evaluate_influence :: "advanced_ai \<Rightarrow> go_board \<Rightarrow> int \<Rightarrow> int \<Rightarrow> rat \<times> reason list" where
  "evaluate_influence ai b cx cy =
     (let thickness = calculate_thickness ai b cx cy;
          sc = thickness
      in if keeps_initiative ai b cx cy then (sc + 12 + thickness, [Keeps_initiative])
         else (sc, []))"

function territory_control_loop :: "int \<Rightarrow> grid \<Rightarrow> pos list \<Rightarrow> pos set \<Rightarrow> rat \<Rightarrow> rat" where
  "territory_control_loop n g [] checked territory = territory"
| "territory_control_loop n g ((cx, cy) # stack) checked territory =
     (if \<not> card checked < 20 then territory
      else if (cx, cy) \<in> checked then territory_control_loop n g stack checked territory
      else if \<not> in_bounds n cx cy
      then territory_control_loop n g stack (insert (cx, cy) checked) territory
      else if cell g cx cy = 0
      then territory_control_loop n g (rev (neighbours cx cy) @ stack)
             (insert (cx, cy) checked) (territory + 1)
      else territory_control_loop n g stack (insert (cx, cy) checked) territory)"
  by pat_completeness auto

termination territory_control_loop
proof (relation "(\<lambda>(n, g, stack, checked, t). card (cells_of n - checked)) <*mlex*>
                 measure (\<lambda>(n, g, stack, checked, t). length stack)")
  show "wf ((\<lambda>(n, g, stack, checked, t). card (cells_of n - checked)) <*mlex*>
            measure (\<lambda>(n, g, stack, checked, t). length stack))"
    by (simp add: wf_mlex)
qed (auto simp: mlex_iff in_bounds_cells_of card_cells_insert_less card_cells_insert_outside
      simp del: Diff_insert0 card_Diff_insert)

declare territory_control_loop.simps [simp del]

definition estimate_territory_control :: "go_board \<Rightarrow> int \<Rightarrow> int \<Rightarrow> rat" where
  "estimate_territory_control b cx cy = territory_control_loop (size_b b) (board b) [(cx, cy)] {} 0"

definition evaluate_territory :: "go_board \<Rightarrow> int \<Rightarrow> int \<Rightarrow> rat \<times> reason list" where
  "evaluate_territory b cx cy =
     (let territory = estimate_territory_control b cx cy in (territory, [Controls territory]))"

subsection \<open>Choosing a move\<close>

definition evaluate_move_deep ::
  "advanced_ai \<Rightarrow> go_board \<Rightarrow> int \<Rightarrow> int \<Rightarrow> py_error + rat \<times> analysis" where
  "evaluate_move_deep ai b cx cy =
     (let (tactical_score, tactical_reason) = evaluate_tactical ai b cx cy;
          s1 = tactical_score * (5 / 2);
          r1 = (if tactical_score > 10 then [tactical_reason] else []);
          (position_score, position_reason) = evaluate_position_advanced ai b cx cy;
          s2 = s1 + position_score * (3 / 2);
          r2 = (if position_score > 15 then r1 @ [position_reason] else r1)
      in case evaluate_shape ai b cx cy of
           Inl e \<Rightarrow> Inl e
         | Inr (shape_score, shape_reason) \<Rightarrow>
             let s3 = s2 + shape_score * (6 / 5);
                 r3 = (if shape_score > 10 then r2 @ [shape_reason] else r2);
                 (influence_score, influence_reason) = evaluate_influence ai b cx cy;
                 s4 = s3 + influence_score;
                 r4 = (if influence_score > 8 then r3 @ [influence_reason] else r3);
                 (territory_score, territory_reason) = evaluate_territory b cx cy;
                 s5 = s4 + territory_score;
                 r5 = (if territory_score > 8 then r4 @ [territory_reason] else r4)
             in Inr (s5, if r5 \<noteq> [] then Analysis (cx + 1) (cy + 1) (take 3 r5)
                         else Overall (cx + 1) (cy + 1)))"

text \<open>
  The loops over the legal moves. \<open>rnd k\<close> is the value of the \<open>k\<close>-th call of
  \<open>random.random()\<close>; the best score starts at minus infinity, here \<open>None\<close>.
\<close>

fun advanced_loop ::
  "advanced_ai \<Rightarrow> go_board \<Rightarrow> (nat \<Rightarrow> rat) \<Rightarrow> pos list \<Rightarrow> nat \<Rightarrow> rat option \<Rightarrow> pos option \<Rightarrow>
   analysis list \<Rightarrow> py_error + pos option \<times> analysis list" where
  "advanced_loop ai b rnd [] k best_score best_move analyses = Inr (best_move, analyses)"
| "advanced_loop ai b rnd ((cx, cy) # rest) k best_score best_move analyses =
     (case evaluate_move_deep ai b cx cy of
        Inl e \<Rightarrow> Inl e
      | Inr (sc, an) \<Rightarrow>
          let score = sc + rnd k * (1 / 2) in
          if (case best_score of None \<Rightarrow> True | Some bs \<Rightarrow> score > bs)
          then advanced_loop ai b rnd rest (Suc k) (Some score) (Some (cx, cy)) [an]
          else if (case best_score of None \<Rightarrow> False | Some bs \<Rightarrow> score > bs - 2)
          then advanced_loop ai b rnd rest (Suc k) best_score best_move (analyses @ [an])
          else advanced_loop ai b rnd rest (Suc k) best_score best_move analyses)"

definition format_explanation :: "int \<Rightarrow> int \<Rightarrow> analysis list \<Rightarrow> explanation" where
  "format_explanation cx cy analyses =
     (case analyses of [] \<Rightarrow> Best_by_analysis (cx + 1) (cy + 1)
      | main_analysis # _ \<Rightarrow> With_analysis (cx + 1) (cy + 1) main_analysis)"

definition get_move_advanced ::
  "advanced_ai \<Rightarrow> go_board \<Rightarrow> (nat \<Rightarrow> rat) \<Rightarrow> pos list \<Rightarrow> py_error + int \<times> int \<times> explanation" where
  "get_move_advanced ai b rnd valid_moves =
     (case advanced_loop ai b rnd valid_moves 0 None None [] of
        Inl e \<Rightarrow> Inl e
      | Inr (None, analyses) \<Rightarrow> Inl TypeError
      | Inr (Some (bx, by), analyses) \<Rightarrow> Inr (bx, by, format_explanation bx by (take 3 analyses)))"

fun greedy_loop :: "(pos \<Rightarrow> rat) \<Rightarrow> (nat \<Rightarrow> rat) \<Rightarrow> rat \<Rightarrow> pos list \<Rightarrow> nat \<Rightarrow> rat option \<Rightarrow> pos \<Rightarrow> pos" where
  "greedy_loop f rnd w [] k best_score best_move = best_move"
| "greedy_loop f rnd w (m # rest) k best_score best_move =
     (let score = f m + rnd k * w in
      if (case best_score of None \<Rightarrow> True | Some bs \<Rightarrow> score > bs)
      then greedy_loop f rnd w rest (Suc k) (Some score) m
      else greedy_loop f rnd w rest (Suc k) best_score best_move)"

definition medium_score :: "advanced_ai \<Rightarrow> go_board \<Rightarrow> pos \<Rightarrow> rat" where
  "medium_score ai b m =
     (case m of (cx, cy) \<Rightarrow>
        (if fst (can_capture_stones ai b cx cy) then 25 else 0)
      + (if fst (can_save_stones ai b cx cy) then 20 else 0)
      - (if will_be_captured ai b cx cy then 40 else 0)
      + (if can_cut ai b cx cy then 15 else 0)
      + (if can_connect ai b cx cy then 12 else 0)
      + fst (evaluate_position_advanced ai b cx cy) * (4 / 5))"

definition get_move_medium ::
  "advanced_ai \<Rightarrow> go_board \<Rightarrow> (nat \<Rightarrow> rat) \<Rightarrow> pos list \<Rightarrow> py_error + int \<times> int \<times> explanation" where
  "get_move_medium ai b rnd valid_moves =
     (case valid_moves of
        [] \<Rightarrow> Inl IndexError
      | first # _ \<Rightarrow>
          (case greedy_loop (medium_score ai b) rnd 3 valid_moves 0 None first of
             (bx, by) \<Rightarrow> Inr (bx, by, Best_overall (bx + 1) (by + 1))))"

definition simple_score :: "advanced_ai \<Rightarrow> go_board \<Rightarrow> pos \<Rightarrow> rat" where
  "simple_score ai b m =
     (case m of (cx, cy) \<Rightarrow>
        (if fst (can_capture_stones ai b cx cy) then 20 else 0)
      + (if fst (can_save_stones ai b cx cy) then 15 else 0)
      - (if will_be_captured ai b cx cy then 30 else 0)
      + (if ai_game_phase ai = ''opening'' \<and> (is_corner_star b cx cy \<or> is_side_star b cx cy)
         then 15 else 0))"

text \<open>
  \<open>random.choice\<close> draws an index below the length of the list; \<open>choice\<close> is that draw.
\<close>

definition get_move_simple ::
  "advanced_ai \<Rightarrow> go_board \<Rightarrow> (nat \<Rightarrow> rat) \<Rightarrow> nat \<Rightarrow> pos list \<Rightarrow> py_error + int \<times> int \<times> explanation" where
  "get_move_simple ai b rnd choice valid_moves =
     (case valid_moves of
        [] \<Rightarrow> Inl IndexError
      | first # _ \<Rightarrow>
          if rnd 0 < 3 / 10
          then (case valid_moves ! (choice mod length valid_moves) of
                  (cx, cy) \<Rightarrow> Inr (cx, cy, Try_this (cx + 1) (cy + 1)))
          else (case greedy_loop (simple_score ai b) rnd 5 valid_moves 1 None first of
                  (bx, by) \<Rightarrow> Inr (bx, by, Looks_good (bx + 1) (by + 1))))"

definition get_move ::
  "advanced_ai \<Rightarrow> go_board \<Rightarrow> (nat \<Rightarrow> rat) \<Rightarrow> nat \<Rightarrow> py_error + int \<times> int \<times> explanation" where
  "get_move ai b rnd choice =
     (let valid_moves = get_valid_moves b in
      if valid_moves = [] then Inr (- 1, - 1, No_valid_moves)
      else if ai_difficulty ai = ''easy'' then get_move_simple ai b rnd choice valid_moves
      else if ai_difficulty ai = ''hard'' then get_move_advanced ai b rnd valid_moves
      else get_move_medium ai b rnd valid_moves)"

section \<open>Groups as connected components\<close>

text \<open>
  The mathematical notions the rules of the game speak of: a stone of colour \<open>p\<close> is an
  in-range cell holding \<open>p\<close>; two cells are adjacent when they differ by one step in one
  coordinate; the group of a stone is everything reachable from it through adjacent
  stones of its colour; a liberty of a set of cells is an empty in-range cell adjacent
  to one of them.
\<close>

definition stone :: "int \<Rightarrow> grid \<Rightarrow> int \<Rightarrow> pos \<Rightarrow> bool" where
  "stone n g p q \<longleftrightarrow> in_bounds n (fst q) (snd q) \<and> cell g (fst q) (snd q) = p"

definition adjacent :: "pos \<Rightarrow> pos \<Rightarrow> bool" where
  "adjacent q r \<longleftrightarrow> r \<in> set (neighbours (fst q) (snd q))"

inductive_set stone_group :: "int \<Rightarrow> grid \<Rightarrow> int \<Rightarrow> pos \<Rightarrow> pos set"
  for n :: int and g :: grid and p :: int and s :: pos where
  start: "stone n g p s \<Longrightarrow> s \<in> stone_group n g p s"
| step: "q \<in> stone_group n g p s \<Longrightarrow> adjacent q r \<Longrightarrow> stone n g p r \<Longrightarrow> r \<in> stone_group n g p s"

definition closed_under :: "int \<Rightarrow> grid \<Rightarrow> int \<Rightarrow> pos set \<Rightarrow> bool" where
  "closed_under n g p C \<longleftrightarrow> (\<forall>q \<in> C. \<forall>r. adjacent q r \<and> stone n g p r \<longrightarrow> r \<in> C)"

lemma closed_underD:
  "closed_under n g p C \<Longrightarrow> q \<in> C \<Longrightarrow> adjacent q r \<Longrightarrow> stone n g p r \<Longrightarrow> r \<in> C"
  unfolding closed_under_def by blast

lemma adjacent_iff:
  "adjacent (a, b) r \<longleftrightarrow> r = (a, b + 1) \<or> r = (a, b - 1) \<or> r = (a + 1, b) \<or> r = (a - 1, b)"
  by (auto simp: adjacent_def neighbours_def directions_def)

lemma adjacent_sym: "adjacent q r \<Longrightarrow> adjacent r q"
  by (cases q; cases r) (auto simp: adjacent_iff)

definition pushed :: "pos set \<Rightarrow> int \<Rightarrow> int \<Rightarrow> pos list" where
  "pushed grp cx cy = rev (filter (\<lambda>q. q \<notin> insert (cx, cy) grp) (neighbours cx cy))"

lemma get_group_loop_skip:
  "(cx, cy) \<in> grp \<or> \<not> in_bounds n cx cy \<or> cell g cx cy \<noteq> p \<Longrightarrow>
   get_group_loop n g p ((cx, cy) # stack) grp = get_group_loop n g p stack grp"
  by (auto simp: get_group_loop.simps(2) [of n g p cx cy stack grp])

lemma get_group_loop_push:
  "\<not> ((cx, cy) \<in> grp \<or> \<not> in_bounds n cx cy \<or> cell g cx cy \<noteq> p) \<Longrightarrow>
   get_group_loop n g p ((cx, cy) # stack) grp =
   get_group_loop n g p (pushed grp cx cy @ stack) (insert (cx, cy) grp)"
  by (simp add: get_group_loop.simps(2) [of n g p cx cy stack grp] pushed_def)

lemma get_group_loop_cases [case_names Nil skip push]:
  assumes "\<And>n g p grp. P n g p [] grp"
    and "\<And>n g p cx cy stack grp.
           (cx, cy) \<in> grp \<or> \<not> in_bounds n cx cy \<or> cell g cx cy \<noteq> p \<Longrightarrow>
           P n g p stack grp \<Longrightarrow> P n g p ((cx, cy) # stack) grp"
    and "\<And>n g p cx cy stack grp.
           (cx, cy) \<notin> grp \<Longrightarrow> stone n g p (cx, cy) \<Longrightarrow>
           P n g p (pushed grp cx cy @ stack) (insert (cx, cy) grp) \<Longrightarrow>
           P n g p ((cx, cy) # stack) grp"
  shows "P n g p stack grp"
proof (induction n g p stack grp rule: get_group_loop.induct)
  case (1 n g p grp)
  show ?case by (rule assms(1))
next
  case (2 n g p cx cy stack grp)
  show ?case
  proof (cases "(cx, cy) \<in> grp \<or> \<not> in_bounds n cx cy \<or> cell g cx cy \<noteq> p")
    case True
    with "2.IH"(1,2,3) have "P n g p stack grp" by blast
    with True show ?thesis by (rule assms(2))
  next
    case False
    with "2.IH"(4) have "P n g p (pushed grp cx cy @ stack) (insert (cx, cy) grp)"
      by (simp add: pushed_def)
    moreover from False have "(cx, cy) \<notin> grp" and "stone n g p (cx, cy)"
      by (simp_all add: stone_def)
    ultimately show ?thesis using assms(3) by blast
  qed
qed

lemma set_pushed: "set (pushed grp cx cy) = {r. adjacent (cx, cy) r \<and> r \<noteq> (cx, cy) \<and> r \<notin> grp}"
  by (auto simp: pushed_def adjacent_def)

lemma get_group_loop_sound:
  "closed_under n g p C \<Longrightarrow> grp \<subseteq> C \<Longrightarrow> (\<forall>s \<in> set stack. stone n g p s \<longrightarrow> s \<in> C) \<Longrightarrow>
   get_group_loop n g p stack grp \<subseteq> C"
proof (induction n g p stack grp rule: get_group_loop_cases)
  case (Nil n g p grp)
  then show ?case by (simp add: get_group_loop.simps(1))
next
  case (skip n g p cx cy stack grp)
  then show ?case by (simp add: get_group_loop_skip)
next
  case (push n g p cx cy stack grp)
  from push.prems(3) push.hyps(2) have inC: "(cx, cy) \<in> C" by simp
  have "\<forall>s \<in> set (pushed grp cx cy @ stack). stone n g p s \<longrightarrow> s \<in> C"
  proof (intro ballI impI)
    fix s assume s: "s \<in> set (pushed grp cx cy @ stack)" and sst: "stone n g p s"
    show "s \<in> C"
    proof (cases "s \<in> set stack")
      case True
      with push.prems(3) sst show ?thesis by simp
    next
      case False
      with s have "adjacent (cx, cy) s" by (simp add: set_pushed)
      with push.prems(1) inC show ?thesis using sst by (rule closed_underD)
    qed
  qed
  moreover from inC push.prems(2) have "insert (cx, cy) grp \<subseteq> C" by simp
  ultimately have "get_group_loop n g p (pushed grp cx cy @ stack) (insert (cx, cy) grp) \<subseteq> C"
    using push.IH push.prems(1) by blast
  then show ?case using push.hyps by (simp add: get_group_loop_push stone_def)
qed

lemma get_group_loop_mono: "grp \<subseteq> get_group_loop n g p stack grp"
proof (induction n g p stack grp rule: get_group_loop_cases)
  case (Nil n g p grp)
  then show ?case by (simp add: get_group_loop.simps(1))
next
  case (skip n g p cx cy stack grp)
  then show ?case by (simp add: get_group_loop_skip)
next
  case (push n g p cx cy stack grp)
  then show ?case by (simp add: get_group_loop_push stone_def)
qed

lemma get_group_loop_stack:
  "s \<in> set stack \<Longrightarrow> stone n g p s \<Longrightarrow> s \<in> get_group_loop n g p stack grp"
proof (induction n g p stack grp rule: get_group_loop_cases)
  case (Nil n g p grp)
  then show ?case by simp
next
  case (skip n g p cx cy stack grp)
  show ?case
  proof (cases "s = (cx, cy)")
    case True
    with skip.prems(2) skip.hyps have "s \<in> grp" by (auto simp: stone_def)
    then show ?thesis using get_group_loop_mono by blast
  next
    case False
    with skip.prems have "s \<in> set stack" by simp
    with skip.IH skip.prems(2) skip.hyps show ?thesis by (simp add: get_group_loop_skip)
  qed
next
  case (push n g p cx cy stack grp)
  have eq: "get_group_loop n g p ((cx, cy) # stack) grp =
            get_group_loop n g p (pushed grp cx cy @ stack) (insert (cx, cy) grp)"
    using push.hyps by (simp add: get_group_loop_push stone_def)
  show ?case
  proof (cases "s = (cx, cy)")
    case True
    then have "s \<in> insert (cx, cy) grp" by simp
    then show ?thesis unfolding eq using get_group_loop_mono by blast
  next
    case False
    with push.prems have "s \<in> set (pushed grp cx cy @ stack)" by simp
    with push.IH push.prems(2) show ?thesis unfolding eq by blast
  qed
qed

definition frontier_inv :: "int \<Rightarrow> grid \<Rightarrow> int \<Rightarrow> pos list \<Rightarrow> pos set \<Rightarrow> bool" where
  "frontier_inv n g p stack grp \<longleftrightarrow>
     (\<forall>q \<in> grp. \<forall>r. adjacent q r \<and> stone n g p r \<longrightarrow> r \<in> grp \<or> r \<in> set stack)"

lemma get_group_loop_closed:
  "frontier_inv n g p stack grp \<Longrightarrow> closed_under n g p (get_group_loop n g p stack grp)"
proof (induction n g p stack grp rule: get_group_loop_cases)
  case (Nil n g p grp)
  then show ?case by (simp add: get_group_loop.simps(1) frontier_inv_def closed_under_def)
next
  case (skip n g p cx cy stack grp)
  have "frontier_inv n g p stack grp"
    unfolding frontier_inv_def
  proof (intro ballI allI impI)
    fix q r assume q: "q \<in> grp" and ar: "adjacent q r \<and> stone n g p r"
    with skip.prems have "r \<in> grp \<or> r \<in> set ((cx, cy) # stack)"
      unfolding frontier_inv_def by blast
    moreover have "r = (cx, cy) \<Longrightarrow> r \<in> grp" using ar skip.hyps by (auto simp: stone_def)
    ultimately show "r \<in> grp \<or> r \<in> set stack" by auto
  qed
  with skip.IH skip.hyps show ?case by (simp add: get_group_loop_skip)
next
  case (push n g p cx cy stack grp)
  have "frontier_inv n g p (pushed grp cx cy @ stack) (insert (cx, cy) grp)"
    unfolding frontier_inv_def
  proof (intro ballI allI impI)
    fix q r assume q: "q \<in> insert (cx, cy) grp" and ar: "adjacent q r \<and> stone n g p r"
    show "r \<in> insert (cx, cy) grp \<or> r \<in> set (pushed grp cx cy @ stack)"
    proof (cases "q = (cx, cy)")
      case True
      with ar show ?thesis by (auto simp: set_pushed)
    next
      case False
      with q have "q \<in> grp" by simp
      with push.prems ar have "r \<in> grp \<or> r \<in> set ((cx, cy) # stack)"
        unfolding frontier_inv_def by blast
      then show ?thesis by auto
    qed
  qed
  with push.IH push.hyps show ?case by (simp add: get_group_loop_push stone_def)
qed

lemma stone_group_stone: "q \<in> stone_group n g p s \<Longrightarrow> stone n g p q"
  by (induction rule: stone_group.induct) auto

lemma stone_group_closed: "closed_under n g p (stone_group n g p s)"
  by (auto simp: closed_under_def intro: stone_group.step)

lemma closed_under_stone_group:
  assumes "closed_under n g p C" and "s \<in> C" and "q \<in> stone_group n g p s"
  shows "q \<in> C"
  using assms(3)
proof (induction rule: stone_group.induct)
  case start
  show ?case by (rule assms(2))
next
  case (step q r)
  from assms(1) step.IH step.hyps(2,3) show ?case by (rule closed_underD)
qed

lemma stone_group_empty: "\<not> stone n g p s \<Longrightarrow> stone_group n g p s = {}"
proof (rule ccontr)
  assume ns: "\<not> stone n g p s" and "stone_group n g p s \<noteq> {}"
  then obtain q where "q \<in> stone_group n g p s" by blast
  then have "stone n g p s" by (induction rule: stone_group.induct)
  with ns show False by simp
qed

lemma get_group_at_stone_group:
  assumes "in_bounds n gx gy"
  shows "get_group_at n g gx gy p = stone_group n g p (gx, gy)"
proof (cases "cell g gx gy = p")
  case False
  then have "\<not> stone n g p (gx, gy)" by (simp add: stone_def)
  then have "stone_group n g p (gx, gy) = {}" by (rule stone_group_empty)
  with False show ?thesis by (simp add: get_group_at_def)
next
  case True
  with assms have st: "stone n g p (gx, gy)" by (simp add: stone_def)
  let ?R = "get_group_loop n g p [(gx, gy)] {}"
  have "(gx, gy) \<in> stone_group n g p (gx, gy)" using st by (rule stone_group.start)
  then have "\<forall>s \<in> set [(gx, gy)]. stone n g p s \<longrightarrow> s \<in> stone_group n g p (gx, gy)" by simp
  then have sub: "?R \<subseteq> stone_group n g p (gx, gy)"
    using get_group_loop_sound [OF stone_group_closed] by blast
  have "frontier_inv n g p [(gx, gy)] {}" by (simp add: frontier_inv_def)
  then have cl: "closed_under n g p ?R" by (rule get_group_loop_closed)
  have "(gx, gy) \<in> ?R" using st by (simp add: get_group_loop_stack)
  with cl have "stone_group n g p (gx, gy) \<subseteq> ?R"
    using closed_under_stone_group by blast
  with sub True show ?thesis by (simp add: get_group_at_def)
qed


definition liberties :: "int \<Rightarrow> grid \<Rightarrow> pos set \<Rightarrow> pos set" where
  "liberties n g G = {r. \<exists>q \<in> G. adjacent q r \<and> stone n g 0 r}"

definition wf_grid :: "int \<Rightarrow> grid \<Rightarrow> bool" where
  "wf_grid n g \<longleftrightarrow> length g = nat n \<and> (\<forall>row \<in> set g. length row = nat n)"

lemma stone_pair [simp]: "stone n g p (a, b) \<longleftrightarrow> in_bounds n a b \<and> cell g a b = p"
  by (simp add: stone_def)

lemma adjacent_pair: "adjacent (a, b) r \<longleftrightarrow> r \<in> set (neighbours a b)"
  by (simp add: adjacent_def)

lemma liberties_iff:
  "r \<in> liberties n g G \<longleftrightarrow>
     (\<exists>(gx, gy) \<in> G. \<exists>(nx, ny) \<in> set (neighbours gx gy). r = (nx, ny) \<and> in_bounds n nx ny \<and> cell g nx ny = 0)"
  unfolding liberties_def by (cases r) (force simp: adjacent_pair)

lemma group_has_liberty_iff: "group_has_liberty n g G p \<longleftrightarrow> liberties n g G \<noteq> {}"
proof -
  have "liberties n g G \<noteq> {} \<longleftrightarrow> (\<exists>r. r \<in> liberties n g G)" by blast
  also have "\<dots> \<longleftrightarrow> group_has_liberty n g G p"
    unfolding liberties_iff group_has_liberty_def by fastforce
  finally show ?thesis by simp
qed

lemma group_has_liberty_excluding_iff:
  "group_has_liberty_excluding n g G p ex ey \<longleftrightarrow> liberties n g G - {(ex, ey)} \<noteq> {}"
proof -
  have "liberties n g G - {(ex, ey)} \<noteq> {} \<longleftrightarrow> (\<exists>r. r \<in> liberties n g G \<and> r \<noteq> (ex, ey))" by blast
  also have "\<dots> \<longleftrightarrow> group_has_liberty_excluding n g G p ex ey"
    unfolding liberties_iff group_has_liberty_excluding_def by fastforce
  finally show ?thesis by simp
qed

lemma count_liberties_of_group_eq:
  "count_liberties_of_group n g G = int (card (liberties n g G))"
proof -
  have "(\<Union>(gx, gy) \<in> G. {(nx, ny) \<in> set (neighbours gx gy). in_bounds n nx ny \<and> cell g nx ny = 0})
        = liberties n g G" (is "?A = ?B")
  proof (rule set_eqI)
    fix r show "r \<in> ?A \<longleftrightarrow> r \<in> ?B"
      unfolding liberties_iff by fastforce
  qed
  then show ?thesis by (simp add: count_liberties_of_group_def)
qed

lemma wf_grid_set_cell:
  assumes "wf_grid n g"
  shows "wf_grid n (set_cell g cx cy v)"
proof (cases "nat cy < length g")
  case True
  then have "g ! nat cy \<in> set g" by simp
  with assms have "length ((g ! nat cy)[nat cx := v]) = nat n" by (simp add: wf_grid_def)
  moreover have "set (g[nat cy := (g ! nat cy)[nat cx := v]]) \<subseteq> insert ((g ! nat cy)[nat cx := v]) (set g)"
    by (rule set_update_subset_insert)
  ultimately show ?thesis using assms unfolding wf_grid_def set_cell_def by auto
next
  case False
  then have "g[nat cy := (g ! nat cy)[nat cx := v]] = g" by (simp add: list_update_beyond)
  then show ?thesis using assms by (simp add: set_cell_def)
qed

lemma cell_set_cell:
  assumes "wf_grid n g" and "in_bounds n cx cy" and "in_bounds n ax ay"
  shows "cell (set_cell g cx cy v) ax ay = (if (ax, ay) = (cx, cy) then v else cell g ax ay)"
proof -
  from assms have "nat cy < length g" "nat ay < length g"
    by (auto simp: wf_grid_def in_bounds_def)
  moreover from this assms have "nat cx < length (g ! nat cy)"
    by (auto simp: wf_grid_def in_bounds_def)
  moreover from assms have "nat ax = nat cx \<longleftrightarrow> ax = cx" "nat ay = nat cy \<longleftrightarrow> ay = cy"
    by (auto simp: in_bounds_def)
  ultimately show ?thesis
    by (auto simp: cell_def set_cell_def nth_list_update)
qed

text \<open>
  The order in which \<open>get_valid_moves\<close> scans the grid: rows from top to bottom, each
  row from left to right.
\<close>

definition row_major_less :: "pos \<Rightarrow> pos \<Rightarrow> bool" where
  "row_major_less a b \<longleftrightarrow> snd a < snd b \<or> (snd a = snd b \<and> fst a < fst b)"

lemma row_sorted: "sorted_wrt row_major_less (map (\<lambda>vx. (vx, vy)) (filter P [0..m]))"
proof -
  have "sorted_wrt (<) (filter P [0..m])"
    by (rule sorted_wrt_filter) (rule sorted_wrt_upto)
  then show ?thesis
    by (simp add: sorted_wrt_map row_major_less_def)
qed

lemma rows_sorted:
  "sorted_wrt (<) ys \<Longrightarrow>
   sorted_wrt row_major_less (concat (map (\<lambda>vy. map (\<lambda>vx. (vx, vy)) (filter (P vy) [0..m])) ys))"
proof (induction ys)
  case Nil
  then show ?case by simp
next
  case (Cons a ys)
  then have "sorted_wrt row_major_less (concat (map (\<lambda>vy. map (\<lambda>vx. (vx, vy)) (filter (P vy) [0..m])) ys))"
    by simp
  moreover have "sorted_wrt row_major_less (map (\<lambda>vx. (vx, a)) (filter (P a) [0..m]))"
    by (rule row_sorted)
  moreover have "\<forall>u \<in> set (map (\<lambda>vx. (vx, a)) (filter (P a) [0..m])).
       \<forall>v \<in> set (concat (map (\<lambda>vy. map (\<lambda>vx. (vx, vy)) (filter (P vy) [0..m])) ys)).
         row_major_less u v"
    using Cons.prems by (auto simp: row_major_less_def)
  ultimately show ?case by (simp add: sorted_wrt_append)
qed

lemma sorted_wrt_irrefl_distinct:
  "sorted_wrt R xs \<Longrightarrow> (\<And>a. \<not> R a a) \<Longrightarrow> distinct xs"
  by (induction xs) auto

section \<open>What a capture removes\<close>

text \<open>
  After a stone is placed at \<open>c\<close>, a stone of the opponent is dead when its group has no
  liberty other than \<open>c\<close>; the captured set is the union of the groups of the dead
  stones adjacent to \<open>c\<close>. The loop of \<open>_find_and_capture_stones\<close> computes exactly this
  set: its two shortcuts (a neighbour already captured, a group already examined) skip
  only groups whose fate is settled.
\<close>

definition dead :: "int \<Rightarrow> grid \<Rightarrow> int \<Rightarrow> pos \<Rightarrow> pos \<Rightarrow> bool" where
  "dead n g opp c q \<longleftrightarrow> stone n g opp q \<and> liberties n g (stone_group n g opp q) - {c} = {}"

definition captured_set :: "int \<Rightarrow> grid \<Rightarrow> int \<Rightarrow> pos \<Rightarrow> pos set" where
  "captured_set n g opp c = \<Union> {stone_group n g opp q | q. adjacent c q \<and> dead n g opp c q}"

lemma closed_under_Un:
  "closed_under n g p A \<Longrightarrow> closed_under n g p B \<Longrightarrow> closed_under n g p (A \<union> B)"
  unfolding closed_under_def by blast

lemma closed_under_empty: "closed_under n g p {}"
  by (simp add: closed_under_def)

lemma stone_group_subset_closed:
  "closed_under n g p C \<Longrightarrow> s \<in> C \<Longrightarrow> stone_group n g p s \<subseteq> C"
  using closed_under_stone_group by blast

lemma capture_loop_eq:
  assumes "closed_under n g opp ac"
    and "\<forall>G \<in> ch. liberties n g G - {(cx, cy)} = {} \<longrightarrow> G \<subseteq> ac"
  shows "capture_loop n g cx cy opp rest ac ch =
         ac \<union> \<Union> {stone_group n g opp q | q. q \<in> set rest \<and> dead n g opp (cx, cy) q}"
  using assms
proof (induction rest arbitrary: ac ch)
  case Nil
  then show ?case by simp
next
  case (Cons q rest)
  obtain nx ny where q: "q = (nx, ny)" by (cases q)
  let ?G = "stone_group n g opp (nx, ny)"
  let ?U = "\<lambda>xs. \<Union> {stone_group n g opp q | q. q \<in> set xs \<and> dead n g opp (cx, cy) q}"
  have split: "?U (q # rest) = (if dead n g opp (cx, cy) q then ?G else {}) \<union> ?U rest"
    unfolding q by auto
  show ?case
  proof (cases "stone n g opp (nx, ny)")
    case False
    then have "\<not> dead n g opp (cx, cy) q" unfolding dead_def q by blast
    moreover from False have "capture_loop n g cx cy opp (q # rest) ac ch =
        capture_loop n g cx cy opp rest ac ch"
      by (auto simp: q)
    ultimately show ?thesis using Cons.IH [OF Cons.prems] split by simp
  next
    case st: True
    then have inb: "in_bounds n nx ny" and col: "cell g nx ny = opp" by simp_all
    have gg: "get_group_at n g nx ny opp = ?G" using inb by (rule get_group_at_stone_group)
    have self: "(nx, ny) \<in> ?G" using st by (rule stone_group.start)
    show ?thesis
    proof (cases "(nx, ny) \<in> ac")
      case True
      then have "?G \<subseteq> ac" using Cons.prems(1) by (simp add: stone_group_subset_closed)
      moreover from True inb col have "capture_loop n g cx cy opp (q # rest) ac ch =
          capture_loop n g cx cy opp rest ac ch"
        by (simp add: q)
      ultimately show ?thesis using Cons.IH [OF Cons.prems] split by auto
    next
      case notin: False
      show ?thesis
      proof (cases "?G \<in> ch")
        case True
        with Cons.prems(2) have "dead n g opp (cx, cy) q \<Longrightarrow> ?G \<subseteq> ac"
          by (simp add: dead_def q)
        moreover from True notin inb col gg have "capture_loop n g cx cy opp (q # rest) ac ch =
            capture_loop n g cx cy opp rest ac ch"
          by (simp add: q Let_def)
        ultimately show ?thesis using Cons.IH [OF Cons.prems] split by auto
      next
        case nch: False
        show ?thesis
        proof (cases "dead n g opp (cx, cy) q")
          case True
          then have nl: "\<not> group_has_liberty_excluding n g ?G opp cx cy"
            by (simp add: group_has_liberty_excluding_iff dead_def q)
          from nch notin inb col gg nl
          have eq: "capture_loop n g cx cy opp (q # rest) ac ch =
              capture_loop n g cx cy opp rest (ac \<union> ?G) (insert ?G ch)"
            by (simp add: q Let_def)
          have c1: "closed_under n g opp (ac \<union> ?G)"
            using Cons.prems(1) stone_group_closed by (rule closed_under_Un)
          have c2: "\<forall>G \<in> insert ?G ch. liberties n g G - {(cx, cy)} = {} \<longrightarrow> G \<subseteq> ac \<union> ?G"
            using Cons.prems(2) by auto
          from Cons.IH [OF c1 c2] eq split True show ?thesis by auto
        next
          case False
          with st have hl: "group_has_liberty_excluding n g ?G opp cx cy"
            by (simp add: group_has_liberty_excluding_iff dead_def q)
          from nch notin inb col gg hl
          have eq: "capture_loop n g cx cy opp (q # rest) ac ch =
              capture_loop n g cx cy opp rest ac (insert ?G ch)"
            by (simp add: q Let_def)
          have c2: "\<forall>G \<in> insert ?G ch. liberties n g G - {(cx, cy)} = {} \<longrightarrow> G \<subseteq> ac"
            using Cons.prems(2) hl by (auto simp: group_has_liberty_excluding_iff)
          from Cons.IH [OF Cons.prems(1) c2] eq split False show ?thesis by auto
        qed
      qed
    qed
  qed
qed

lemma capture_loop_captured_set:
  "capture_loop n g cx cy opp (neighbours cx cy) {} {} = captured_set n g opp (cx, cy)"
proof -
  have "capture_loop n g cx cy opp (neighbours cx cy) {} {} =
        {} \<union> \<Union> {stone_group n g opp q | q. q \<in> set (neighbours cx cy) \<and> dead n g opp (cx, cy) q}"
    by (rule capture_loop_eq) (simp_all add: closed_under_empty)
  then show ?thesis by (simp add: captured_set_def adjacent_pair)
qed

lemma fold_clear_wf:
  "wf_grid n g \<Longrightarrow> wf_grid n (fold (\<lambda>(cx, cy) g'. set_cell g' cx cy 0) xs g)"
  by (induction xs arbitrary: g) (auto simp: wf_grid_set_cell)

lemma fold_clear_cell:
  "wf_grid n g \<Longrightarrow> \<forall>q \<in> set xs. in_bounds n (fst q) (snd q) \<Longrightarrow> in_bounds n ax ay \<Longrightarrow>
   cell (fold (\<lambda>(cx, cy) g'. set_cell g' cx cy 0) xs g) ax ay =
     (if (ax, ay) \<in> set xs then 0 else cell g ax ay)"
proof (induction xs arbitrary: g)
  case Nil
  then show ?case by simp
next
  case (Cons q xs)
  obtain cx cy where q: "q = (cx, cy)" by (cases q)
  from Cons.prems have inb: "in_bounds n cx cy" by (simp add: q)
  have "cell (fold (\<lambda>(cx, cy) g'. set_cell g' cx cy 0) xs (set_cell g cx cy 0)) ax ay =
        (if (ax, ay) \<in> set xs then 0 else cell (set_cell g cx cy 0) ax ay)"
    using Cons.prems by (intro Cons.IH) (simp_all add: wf_grid_set_cell)
  also have "cell (set_cell g cx cy 0) ax ay = (if (ax, ay) = (cx, cy) then 0 else cell g ax ay)"
    using Cons.prems(1) inb Cons.prems(3) by (rule cell_set_cell)
  finally show ?case by (auto simp: q)
qed

lemma stone_group_in_cells: "stone_group n g p s \<subseteq> cells_of n"
  using stone_group_stone by (fastforce simp: stone_def in_bounds_cells_of [symmetric])

lemma captured_set_in_cells: "captured_set n g opp c \<subseteq> cells_of n"
  unfolding captured_set_def using stone_group_in_cells by blast

lemma finite_captured_set: "finite (captured_set n g opp c)"
  using captured_set_in_cells finite_cells_of by (rule finite_subset)

lemma wf_grid_remove_stones: "wf_grid n g \<Longrightarrow> wf_grid n (remove_stones cs g)"
  unfolding remove_stones_def by (rule fold_clear_wf)

lemma cell_remove_stones:
  assumes "wf_grid n g" and "cs \<subseteq> cells_of n" and "in_bounds n ax ay"
  shows "cell (remove_stones cs g) ax ay = (if (ax, ay) \<in> cs then 0 else cell g ax ay)"
proof -
  from assms(2) have fin: "finite cs" using finite_cells_of by (rule finite_subset)
  then have set: "set (sorted_list_of_set cs) = cs" by simp
  have "\<forall>q \<in> set (sorted_list_of_set cs). in_bounds n (fst q) (snd q)"
    using assms(2) unfolding set by (auto simp: in_bounds_cells_of)
  with assms(1) have "cell (fold (\<lambda>(cx, cy) g'. set_cell g' cx cy 0) (sorted_list_of_set cs) g) ax ay =
     (if (ax, ay) \<in> set (sorted_list_of_set cs) then 0 else cell g ax ay)"
    using assms(3) by (rule fold_clear_cell)
  then show ?thesis unfolding set remove_stones_def .
qed

text \<open>The state after a legal move, field by field.\<close>

definition placed_grid :: "go_board \<Rightarrow> int \<Rightarrow> int \<Rightarrow> grid" where
  "placed_grid b mx my = set_cell (board b) mx my (current_player b)"

definition captured_by :: "go_board \<Rightarrow> int \<Rightarrow> int \<Rightarrow> pos set" where
  "captured_by b mx my =
     captured_set (size_b b) (placed_grid b mx my) (3 - current_player b) (mx, my)"

lemma find_and_capture_stones_eq:
  "find_and_capture_stones n g cx cy opp =
     (captured_set n g opp (cx, cy), remove_stones (captured_set n g opp (cx, cy)) g)"
  by (simp add: find_and_capture_stones_def capture_loop_captured_set Let_def)

lemma place_stone_valid:
  assumes "is_valid_move b mx my"
  shows "fst (place_stone b mx my) = (True, Placed (card (captured_by b mx my)))"
    and "size_b (snd (place_stone b mx my)) = size_b b"
    and "board (snd (place_stone b mx my)) = remove_stones (captured_by b mx my) (placed_grid b mx my)"
    and "current_player (snd (place_stone b mx my)) = 3 - current_player b"
    and "move_history (snd (place_stone b mx my)) = move_history b @
           [\<lparr>x = mx, y = my, player = current_player b, captured = int (card (captured_by b mx my))\<rparr>]"
    and "captured_black (snd (place_stone b mx my)) =
           captured_black b + (if current_player b = 1 then int (card (captured_by b mx my)) else 0)"
    and "captured_white (snd (place_stone b mx my)) =
           captured_white b + (if current_player b = 1 then 0 else int (card (captured_by b mx my)))"
    and "ko_point (snd (place_stone b mx my)) =
           (if card (captured_by b mx my) = 1 \<and>
               count_liberties_of_group (size_b b) (remove_stones (captured_by b mx my) (placed_grid b mx my))
                 (get_group_at (size_b b) (remove_stones (captured_by b mx my) (placed_grid b mx my))
                    mx my (current_player b)) = 1
            then Some (the_elem (captured_by b mx my)) else None)"
    and "last_move (snd (place_stone b mx my)) = Some (mx, my)"
  using assms finite_captured_set [of "size_b b" "placed_grid b mx my" "3 - current_player b" "(mx, my)"]
  by (simp_all add: place_stone_def find_and_capture_stones_eq Let_def captured_by_def placed_grid_def)

section \<open>Well-formed boards and reachable states\<close>

text \<open>
  Stones of one colour on the grid, counted as the source counts them
  (\<open>sum(row.count(v) for row in board)\<close>).
\<close>

definition count_cells :: "grid \<Rightarrow> int \<Rightarrow> nat" where
  "count_cells g v = sum_list (map (\<lambda>row. count_list row v) g)"

definition cells_ok :: "grid \<Rightarrow> bool" where
  "cells_ok g \<longleftrightarrow> (\<forall>row \<in> set g. \<forall>v \<in> set row. v = 0 \<or> v = 1 \<or> v = 2)"

definition wf_board :: "int \<Rightarrow> go_board \<Rightarrow> bool" where
  "wf_board n b \<longleftrightarrow>
     size_b b = n \<and> wf_grid n (board b) \<and> cells_ok (board b) \<and>
     (current_player b = 1 \<or> current_player b = 2)"

text \<open>
  The states a game can be in: a fresh board of size \<open>n\<close>, and whatever calls of
  \<open>place_stone\<close> (accepted or rejected) and \<open>pass_move\<close> make of one.
\<close>

inductive reachable :: "int \<Rightarrow> go_board \<Rightarrow> bool" for n :: int where
  fresh: "reachable n (init_board n)"
| placed: "reachable n b \<Longrightarrow> reachable n (snd (place_stone b mx my))"
| passed: "reachable n b \<Longrightarrow> reachable n (pass_move b)"

lemma cells_ok_set_cell:
  assumes "cells_ok g" and "v = 0 \<or> v = 1 \<or> v = 2"
  shows "cells_ok (set_cell g cx cy v)"
proof (cases "nat cy < length g")
  case True
  then have row: "g ! nat cy \<in> set g" by simp
  have "set ((g ! nat cy)[nat cx := v]) \<subseteq> insert v (set (g ! nat cy))"
    by (rule set_update_subset_insert)
  with assms row have ok: "\<forall>w \<in> set ((g ! nat cy)[nat cx := v]). w = 0 \<or> w = 1 \<or> w = 2"
    unfolding cells_ok_def by blast
  have "set (g[nat cy := (g ! nat cy)[nat cx := v]]) \<subseteq> insert ((g ! nat cy)[nat cx := v]) (set g)"
    by (rule set_update_subset_insert)
  with ok assms(1) show ?thesis unfolding cells_ok_def set_cell_def by blast
next
  case False
  then have "g[nat cy := (g ! nat cy)[nat cx := v]] = g" by (simp add: list_update_beyond)
  then show ?thesis using assms by (simp add: set_cell_def)
qed

lemma cells_ok_remove_stones: "cells_ok g \<Longrightarrow> cells_ok (remove_stones cs g)"
proof -
  have "cells_ok g \<Longrightarrow> cells_ok (fold (\<lambda>(cx, cy) g'. set_cell g' cx cy 0) xs g)" for xs
    by (induction xs arbitrary: g) (auto simp: cells_ok_set_cell)
  then show "cells_ok g \<Longrightarrow> cells_ok (remove_stones cs g)"
    by (simp add: remove_stones_def)
qed

lemma wf_board_init: "wf_board n (init_board n)"
  by (auto simp: wf_board_def init_board_def wf_grid_def cells_ok_def)

lemma wf_board_pass: "wf_board n b \<Longrightarrow> wf_board n (pass_move b)"
  by (auto simp: wf_board_def pass_move_def Let_def)

lemma wf_board_place:
  assumes "wf_board n b"
  shows "wf_board n (snd (place_stone b mx my))"
proof (cases "is_valid_move b mx my")
  case False
  with assms show ?thesis by (simp add: place_stone_def)
next
  case True
  from assms have g1: "wf_grid n (placed_grid b mx my)" "cells_ok (placed_grid b mx my)"
    by (auto simp: wf_board_def placed_grid_def wf_grid_set_cell cells_ok_set_cell)
  then have "wf_grid n (remove_stones (captured_by b mx my) (placed_grid b mx my))"
    "cells_ok (remove_stones (captured_by b mx my) (placed_grid b mx my))"
    by (simp_all add: wf_grid_remove_stones cells_ok_remove_stones)
  with assms show ?thesis
    unfolding wf_board_def place_stone_valid(2,3,4) [OF True] by auto
qed

lemma reachable_wf_board: "reachable n b \<Longrightarrow> wf_board n b"
  by (induction rule: reachable.induct) (simp_all add: wf_board_init wf_board_place wf_board_pass)

lemma count_list_update_le:
  "v \<noteq> p \<Longrightarrow> count_list (row[i := v]) p \<le> count_list row p"
proof (induction row arbitrary: i)
  case Nil
  then show ?case by simp
next
  case (Cons a row)
  then show ?case by (cases i) (auto simp: le_SucI)
qed

lemma sum_list_map_update_le:
  fixes f :: "'a \<Rightarrow> nat"
  shows "j < length xs \<Longrightarrow> f r \<le> f (xs ! j) \<Longrightarrow> sum_list (map f (xs[j := r])) \<le> sum_list (map f xs)"
proof (induction xs arbitrary: j)
  case Nil
  then show ?case by simp
next
  case (Cons a xs)
  then show ?case by (cases j) auto
qed

lemma count_cells_set_cell_le:
  assumes "v \<noteq> p"
  shows "count_cells (set_cell g cx cy v) p \<le> count_cells g p"
proof (cases "nat cy < length g")
  case True
  have "count_list ((g ! nat cy)[nat cx := v]) p \<le> count_list (g ! nat cy) p"
    using assms by (rule count_list_update_le)
  with True show ?thesis
    unfolding count_cells_def set_cell_def
    by (rule sum_list_map_update_le [where f = "\<lambda>row. count_list row p"])
next
  case False
  then show ?thesis by (simp add: set_cell_def count_cells_def list_update_beyond)
qed

lemma count_cells_remove_stones_le:
  assumes "p \<noteq> 0"
  shows "count_cells (remove_stones cs g) p \<le> count_cells g p"
proof -
  have "count_cells (fold (\<lambda>(cx, cy) g'. set_cell g' cx cy 0) xs g) p \<le> count_cells g p" for xs
  proof (induction xs arbitrary: g)
    case Nil
    show ?case by simp
  next
    case (Cons q xs)
    obtain cx cy where q: "q = (cx, cy)" by (cases q)
    have "count_cells (fold (\<lambda>(cx, cy) g'. set_cell g' cx cy 0) xs (set_cell g cx cy 0)) p
          \<le> count_cells (set_cell g cx cy 0) p"
      by (rule Cons.IH)
    also have "\<dots> \<le> count_cells g p" using assms by (intro count_cells_set_cell_le) simp
    finally show ?case by (simp add: q)
  qed
  then show ?thesis by (simp add: remove_stones_def)
qed

lemma count_row_total:
  "\<forall>v \<in> set row. v = 0 \<or> v = 1 \<or> v = (2::int) \<Longrightarrow>
   count_list row 1 + count_list row 2 + count_list row 0 = length row"
  by (induction row) auto

lemma count_cells_total:
  "cells_ok g \<Longrightarrow> count_cells g 1 + count_cells g 2 + count_cells g 0 = sum_list (map length g)"
proof (induction g)
  case Nil
  show ?case by (simp add: count_cells_def)
next
  case (Cons row g)
  from Cons.prems have "cells_ok g" and row: "\<forall>v \<in> set row. v = 0 \<or> v = 1 \<or> v = 2"
    by (simp_all add: cells_ok_def)
  from Cons.IH [OF this(1)] count_row_total [OF row] show ?case
    by (simp add: count_cells_def)
qed

lemma sum_list_lengths: "\<forall>row \<in> set g. length row = m \<Longrightarrow> sum_list (map length g) = length g * m"
  by (induction g) auto

lemma count_cells_square:
  assumes "wf_grid n g" and "cells_ok g" and "0 \<le> n"
  shows "int (count_cells g 1 + count_cells g 2 + count_cells g 0) = n * n"
proof -
  from assms(1) have "\<forall>row \<in> set g. length row = nat n" and "length g = nat n"
    by (simp_all add: wf_grid_def)
  then have "sum_list (map length g) = nat n * nat n"
    using sum_list_lengths [of g "nat n"] by simp
  with count_cells_total [OF assms(2)]
  have "int (count_cells g 1 + count_cells g 2 + count_cells g 0) = int (nat n * nat n)"
    by simp
  also have "\<dots> = n * n" using assms(3) by simp
  finally show ?thesis .
qed

section \<open>Legal moves keep every group alive\<close>

text \<open>The invariant: the group of every stone has a liberty.\<close>

definition all_alive :: "int \<Rightarrow> grid \<Rightarrow> bool" where
  "all_alive n g \<longleftrightarrow>
     (\<forall>p q. p \<noteq> 0 \<longrightarrow> stone n g p q \<longrightarrow> liberties n g (stone_group n g p q) \<noteq> {})"

lemma stone_group_trans:
  assumes "a \<in> stone_group n g p s" and "b \<in> stone_group n g p a"
  shows "b \<in> stone_group n g p s"
  using assms(2)
proof (induction rule: stone_group.induct)
  case start
  show ?case by (rule assms(1))
next
  case (step q r)
  then show ?case by (blast intro: stone_group.step)
qed

lemma stone_group_sym:
  assumes "a \<in> stone_group n g p s"
  shows "s \<in> stone_group n g p a"
  using assms
proof (induction rule: stone_group.induct)
  case start
  then show ?case by (rule stone_group.start)
next
  case (step q r)
  have "r \<in> stone_group n g p r" using step.hyps(3) by (rule stone_group.start)
  moreover have "adjacent r q" using step.hyps(2) by (rule adjacent_sym)
  moreover have "stone n g p q" using step.hyps(1) by (rule stone_group_stone)
  ultimately have "q \<in> stone_group n g p r" by (rule stone_group.step)
  then show ?case using step.IH by (rule stone_group_trans)
qed

lemma stone_group_subset:
  assumes "\<forall>m \<in> stone_group n g p s. stone n g' p m"
  shows "stone_group n g p s \<subseteq> stone_group n g' p s"
proof
  fix a assume "a \<in> stone_group n g p s"
  then show "a \<in> stone_group n g' p s"
  proof (induction rule: stone_group.induct)
    case start
    have "s \<in> stone_group n g p s" using start by (rule stone_group.start)
    with assms have "stone n g' p s" by blast
    then show ?case by (rule stone_group.start)
  next
    case (step q r)
    have "r \<in> stone_group n g p s" using step.hyps by (blast intro: stone_group.step)
    with assms have "stone n g' p r" by blast
    with step.IH step.hyps(2) show ?case by (blast intro: stone_group.step)
  qed
qed

lemma stone_group_mono:
  assumes "\<And>m. stone n g p m \<Longrightarrow> stone n g' p m"
  shows "stone_group n g p s \<subseteq> stone_group n g' p s"
proof (rule stone_group_subset, rule ballI)
  fix m assume "m \<in> stone_group n g p s"
  then have "stone n g p m" by (rule stone_group_stone)
  then show "stone n g' p m" by (rule assms)
qed

lemma stone_group_cong:
  assumes "\<And>m. stone n g p m \<longleftrightarrow> stone n g' p m"
  shows "stone_group n g p s = stone_group n g' p s"
proof (rule equalityI)
  show "stone_group n g p s \<subseteq> stone_group n g' p s"
    by (rule stone_group_mono) (simp only: assms)
  show "stone_group n g' p s \<subseteq> stone_group n g p s"
    by (rule stone_group_mono) (simp only: assms)
qed

lemma liberties_mono: "A \<subseteq> B \<Longrightarrow> liberties n g A \<subseteq> liberties n g B"
  unfolding liberties_def by blast

lemma libertiesI: "q \<in> G \<Longrightarrow> adjacent q r \<Longrightarrow> stone n g 0 r \<Longrightarrow> r \<in> liberties n g G"
  unfolding liberties_def by blast

lemma libertiesE:
  assumes "liberties n g G \<noteq> {}"
  obtains q r where "q \<in> G" and "adjacent q r" and "stone n g 0 r"
  using assms unfolding liberties_def by blast

lemma stone_set_cell:
  assumes "wf_grid n g" and "in_bounds n mx my"
  shows "stone n (set_cell g mx my v) p q \<longleftrightarrow> (if q = (mx, my) then p = v else stone n g p q)"
proof (cases q)
  case (Pair ax ay)
  show ?thesis
  proof (cases "in_bounds n ax ay")
    case True
    with assms show ?thesis by (auto simp: Pair cell_set_cell)
  next
    case False
    with assms show ?thesis by (auto simp: Pair)
  qed
qed

lemma stone_remove_stones:
  assumes "wf_grid n g" and "cs \<subseteq> cells_of n"
  shows "stone n (remove_stones cs g) p q \<longleftrightarrow> (if q \<in> cs then p = 0 else stone n g p q)"
proof (cases q)
  case (Pair ax ay)
  show ?thesis
  proof (cases "in_bounds n ax ay")
    case True
    with assms show ?thesis by (auto simp: Pair cell_remove_stones)
  next
    case False
    with assms show ?thesis by (auto simp: Pair in_bounds_cells_of)
  qed
qed

lemma cell_in_range:
  assumes "wf_grid n g" and "cells_ok g" and "in_bounds n ax ay"
  shows "cell g ax ay = 0 \<or> cell g ax ay = 1 \<or> cell g ax ay = 2"
proof -
  from assms(1,3) have y: "nat ay < length g" by (simp add: wf_grid_def in_bounds_def)
  then have row: "g ! nat ay \<in> set g" by simp
  with assms(1,3) have "nat ax < length (g ! nat ay)" by (simp add: wf_grid_def in_bounds_def)
  then have "g ! nat ay ! nat ax \<in> set (g ! nat ay)" by simp
  with assms(2) row show ?thesis unfolding cells_ok_def cell_def by blast
qed

lemma captured_setE:
  assumes "q \<in> captured_set n g opp c"
  obtains s where "adjacent c s" and "dead n g opp c s" and "q \<in> stone_group n g opp s"
  using assms unfolding captured_set_def by blast

lemma captured_setI:
  "adjacent c s \<Longrightarrow> dead n g opp c s \<Longrightarrow> q \<in> stone_group n g opp s \<Longrightarrow>
   q \<in> captured_set n g opp c"
  unfolding captured_set_def by blast

lemma captured_set_closed: "closed_under n g opp (captured_set n g opp c)"
  unfolding closed_under_def
proof (intro ballI allI impI)
  fix q r assume q: "q \<in> captured_set n g opp c" and ar: "adjacent q r \<and> stone n g opp r"
  from q obtain s where s: "adjacent c s" "dead n g opp c s" "q \<in> stone_group n g opp s"
    by (rule captured_setE)
  from s(3) ar have "r \<in> stone_group n g opp s" by (blast intro: stone_group.step)
  with s(1,2) show "r \<in> captured_set n g opp c" by (rule captured_setI)
qed

lemma captured_set_stone:
  assumes "q \<in> captured_set n g opp c"
  shows "stone n g opp q"
proof -
  from assms obtain s where "q \<in> stone_group n g opp s" by (rule captured_setE)
  then show ?thesis by (rule stone_group_stone)
qed

lemma captured_set_nonempty_iff:
  "captured_set n g opp c \<noteq> {} \<longleftrightarrow> (\<exists>q. adjacent c q \<and> dead n g opp c q)"
proof
  assume "captured_set n g opp c \<noteq> {}"
  then obtain q where "q \<in> captured_set n g opp c" by blast
  then show "\<exists>q. adjacent c q \<and> dead n g opp c q" by (blast elim: captured_setE)
next
  assume "\<exists>q. adjacent c q \<and> dead n g opp c q"
  then obtain q where q: "adjacent c q" "dead n g opp c q" by blast
  then have "q \<in> stone_group n g opp q" by (simp add: dead_def stone_group.start)
  with q have "q \<in> captured_set n g opp c" by (rule captured_setI)
  then show "captured_set n g opp c \<noteq> {}" by blast
qed

lemma dead_in_captured_set:
  assumes "adjacent c q" and "dead n g opp c q"
  shows "q \<in> captured_set n g opp c"
proof -
  from assms(2) have "q \<in> stone_group n g opp q" by (simp add: dead_def stone_group.start)
  with assms show ?thesis by (rule captured_setI)
qed

lemma can_capture_anything_iff:
  "can_capture_anything n g mx my opp \<longleftrightarrow> (\<exists>q. adjacent (mx, my) q \<and> dead n g opp (mx, my) q)"
  (is "?L \<longleftrightarrow> ?R")
proof
  assume ?L
  then obtain nx ny where q: "(nx, ny) \<in> set (neighbours mx my)" "in_bounds n nx ny"
      "cell g nx ny = opp"
      "\<not> group_has_liberty_excluding n g (get_group_at n g nx ny opp) opp mx my"
    unfolding can_capture_anything_def by blast
  then have "adjacent (mx, my) (nx, ny)" "dead n g opp (mx, my) (nx, ny)"
    by (simp_all add: adjacent_pair dead_def group_has_liberty_excluding_iff get_group_at_stone_group)
  then show ?R by blast
next
  assume ?R
  then obtain nx ny where q: "adjacent (mx, my) (nx, ny)" "dead n g opp (mx, my) (nx, ny)"
    by auto
  then have "(nx, ny) \<in> set (neighbours mx my)" "in_bounds n nx ny" "cell g nx ny = opp"
    by (simp_all add: adjacent_pair dead_def)
  moreover from this q(2)
  have "\<not> group_has_liberty_excluding n g (get_group_at n g nx ny opp) opp mx my"
    by (simp add: group_has_liberty_excluding_iff get_group_at_stone_group dead_def)
  ultimately show ?L unfolding can_capture_anything_def by blast
qed

lemma is_valid_move_iff:
  "is_valid_move b mx my \<longleftrightarrow>
     in_bounds (size_b b) mx my \<and> cell (board b) mx my = 0 \<and> ko_point b \<noteq> Some (mx, my) \<and>
     (captured_by b mx my \<noteq> {} \<or>
      liberties (size_b b) (placed_grid b mx my)
        (stone_group (size_b b) (placed_grid b mx my) (current_player b) (mx, my)) \<noteq> {})"
proof (cases "in_bounds (size_b b) mx my")
  case False
  then show ?thesis by (simp add: is_valid_move_def)
next
  case True
  then have "has_any_liberty (size_b b) (placed_grid b mx my) mx my (current_player b) \<longleftrightarrow>
      liberties (size_b b) (placed_grid b mx my)
        (stone_group (size_b b) (placed_grid b mx my) (current_player b) (mx, my)) \<noteq> {}"
    by (simp add: has_any_liberty_def group_has_liberty_iff get_group_at_stone_group)
  moreover have "can_capture_anything (size_b b) (placed_grid b mx my) mx my (3 - current_player b)
      \<longleftrightarrow> captured_by b mx my \<noteq> {}"
    by (simp add: can_capture_anything_iff captured_by_def captured_set_nonempty_iff)
  ultimately show ?thesis using True
    by (auto simp: is_valid_move_def Let_def placed_grid_def)
qed

lemma place_keeps_alive:
  assumes wf: "wf_grid n g" "cells_ok g"
    and me: "me = 1 \<or> me = 2" and opp: "opp = 3 - me"
    and c: "in_bounds n mx my" "cell g mx my = 0"
    and alive: "all_alive n g"
    and g1: "g1 = set_cell g mx my me"
    and D: "D = captured_set n g1 opp (mx, my)"
    and g2: "g2 = remove_stones D g1"
    and legal: "D \<noteq> {} \<or> liberties n g1 (stone_group n g1 me (mx, my)) \<noteq> {}"
  shows "all_alive n g2"
  unfolding all_alive_def
proof (intro allI impI)
  fix p q assume p0: "p \<noteq> 0" and st2: "stone n g2 p q"
  let ?c = "(mx, my)"
  from me opp have ne: "me \<noteq> 0" "opp \<noteq> 0" "opp \<noteq> me" by auto
  have s1: "stone n g1 p' q' \<longleftrightarrow> (if q' = ?c then p' = me else stone n g p' q')" for p' q'
    unfolding g1 using wf(1) c(1) by (rule stone_set_cell)
  have wf1: "wf_grid n g1" "cells_ok g1"
    unfolding g1 using wf me by (auto intro: wf_grid_set_cell cells_ok_set_cell)
  have Dsub: "D \<subseteq> cells_of n" unfolding D by (rule captured_set_in_cells)
  have s2: "stone n g2 p' q' \<longleftrightarrow> (if q' \<in> D then p' = 0 else stone n g1 p' q')" for p' q'
    unfolding g2 using wf1(1) Dsub by (rule stone_remove_stones)
  have Dopp: "stone n g1 opp q'" if "q' \<in> D" for q'
    using that unfolding D by (rule captured_set_stone)
  have Dcl: "closed_under n g1 opp D" unfolding D by (rule captured_set_closed)
  have c0: "stone n g 0 ?c" using c by simp
  have e12: "stone n g2 0 r" if "stone n g1 0 r" for r
    using that by (simp add: s2)
  have e01: "stone n g1 0 r" if "stone n g 0 r" "r \<noteq> ?c" for r
    using that by (simp add: s1)
  have colour: "p = me \<or> p = opp"
  proof -
    have "wf_grid n g2" "cells_ok g2"
      unfolding g2 using wf1 by (auto intro: wf_grid_remove_stones cells_ok_remove_stones)
    moreover from st2 have "in_bounds n (fst q) (snd q)" "cell g2 (fst q) (snd q) = p"
      by (simp_all add: stone_def)
    ultimately have "p = 0 \<or> p = 1 \<or> p = 2" using cell_in_range by blast
    with p0 me opp show ?thesis by auto
  qed
  have uniq: "p' = p''" if "stone n g' p' q'" "stone n g' p'' q'" for g' p' p'' q'
    using that by (simp add: stone_def)
  from colour show "liberties n g2 (stone_group n g2 p q) \<noteq> {}"
  proof
    assume pme: "p = me"
    have same: "stone n g2 me m \<longleftrightarrow> stone n g1 me m" for m
    proof (cases "m \<in> D")
      case True
      then have "stone n g1 opp m" by (rule Dopp)
      then have "\<not> stone n g1 me m" using ne(3) uniq by blast
      with True ne(1) show ?thesis by (simp add: s2)
    next
      case False
      then show ?thesis by (simp add: s2)
    qed
    then have SGeq: "stone_group n g2 me q = stone_group n g1 me q" by (rule stone_group_cong)
    from st2 pme same have q1: "stone n g1 me q" by simp
    have "\<exists>m r. m \<in> stone_group n g1 me q \<and> adjacent m r \<and> stone n g2 0 r"
    proof (cases "?c \<in> stone_group n g1 me q")
      case True
      from legal show ?thesis
      proof
        assume "D \<noteq> {}"
        then obtain q0 where q0: "adjacent ?c q0" "dead n g1 opp ?c q0"
          unfolding D captured_set_nonempty_iff by blast
        then have "q0 \<in> D" unfolding D by (rule dead_in_captured_set)
        then have "stone n g2 0 q0" using Dsub by (auto simp: s2)
        with True q0(1) show ?thesis by blast
      next
        assume "liberties n g1 (stone_group n g1 me ?c) \<noteq> {}"
        then obtain m r where m: "m \<in> stone_group n g1 me ?c" "adjacent m r" "stone n g1 0 r"
          by (rule libertiesE)
        from True m(1) have "m \<in> stone_group n g1 me q" by (rule stone_group_trans)
        with m(2) e12 [OF m(3)] show ?thesis by blast
      qed
    next
      case False
      have qc: "q \<noteq> ?c"
      proof
        assume "q = ?c"
        with q1 have "?c \<in> stone_group n g1 me q" by (simp add: stone_group.start)
        with False show False by simp
      qed
      with q1 have "stone n g me q" by (simp add: s1)
      with alive ne(1) have "liberties n g (stone_group n g me q) \<noteq> {}"
        unfolding all_alive_def by blast
      then obtain m r where m: "m \<in> stone_group n g me q" "adjacent m r" "stone n g 0 r"
        by (rule libertiesE)
      have "stone_group n g me q \<subseteq> stone_group n g1 me q"
        by (rule stone_group_mono) (simp add: s1)
      with m(1) have m1: "m \<in> stone_group n g1 me q" by blast
      have "r \<noteq> ?c"
      proof
        assume "r = ?c"
        moreover have "stone n g1 me ?c" unfolding s1 by simp
        ultimately have "?c \<in> stone_group n g1 me q"
          using m1 m(2) by (blast intro: stone_group.step)
        with False show False by simp
      qed
      with m(3) have "stone n g1 0 r" by (rule e01)
      then have "stone n g2 0 r" by (rule e12)
      with m1 m(2) show ?thesis by blast
    qed
    then obtain m r where "m \<in> stone_group n g2 me q" "adjacent m r" "stone n g2 0 r"
      unfolding SGeq by blast
    then have "r \<in> liberties n g2 (stone_group n g2 me q)" by (rule libertiesI)
    with pme show ?thesis by blast
  next
    assume popp: "p = opp"
    from st2 popp ne(2) have qD: "q \<notin> D" and q1: "stone n g1 opp q"
      by (auto simp: s2 split: if_splits)
    have disj: "m \<notin> D" if "m \<in> stone_group n g1 opp q" for m
    proof
      assume "m \<in> D"
      with Dcl have "stone_group n g1 opp m \<subseteq> D" by (rule stone_group_subset_closed)
      moreover from that have "q \<in> stone_group n g1 opp m" by (rule stone_group_sym)
      ultimately show False using qD by blast
    qed
    have sub: "stone_group n g1 opp q \<subseteq> stone_group n g2 opp q"
    proof (rule stone_group_subset, rule ballI)
      fix m assume m: "m \<in> stone_group n g1 opp q"
      then have "stone n g1 opp m" by (rule stone_group_stone)
      with disj [OF m] show "stone n g2 opp m" by (simp add: s2)
    qed
    have "\<exists>m r. m \<in> stone_group n g1 opp q \<and> adjacent m r \<and> stone n g1 0 r"
    proof (cases "\<exists>m \<in> stone_group n g1 opp q. adjacent m ?c")
      case True
      then obtain m where m: "m \<in> stone_group n g1 opp q" "adjacent m ?c" by blast
      from m(2) have adj: "adjacent ?c m" by (rule adjacent_sym)
      have "\<not> dead n g1 opp ?c m"
      proof
        assume "dead n g1 opp ?c m"
        with adj have "m \<in> D" unfolding D by (rule dead_in_captured_set)
        with disj [OF m(1)] show False by simp
      qed
      moreover have "stone n g1 opp m" using m(1) by (rule stone_group_stone)
      ultimately have "liberties n g1 (stone_group n g1 opp m) \<noteq> {}"
        unfolding dead_def by blast
      then obtain m' r where m': "m' \<in> stone_group n g1 opp m" "adjacent m' r" "stone n g1 0 r"
        by (rule libertiesE)
      from m(1) m'(1) have "m' \<in> stone_group n g1 opp q" by (rule stone_group_trans)
      with m'(2,3) show ?thesis by blast
    next
      case False
      have qc: "q \<noteq> ?c" using q1 ne(3) by (auto simp: s1)
      with q1 have "stone n g opp q" by (simp add: s1)
      with alive ne(2) have "liberties n g (stone_group n g opp q) \<noteq> {}"
        unfolding all_alive_def by blast
      then obtain m r where m: "m \<in> stone_group n g opp q" "adjacent m r" "stone n g 0 r"
        by (rule libertiesE)
      have "stone n g opp m' \<longleftrightarrow> stone n g1 opp m'" for m'
      proof (cases "m' = ?c")
        case True
        have "\<not> stone n g opp ?c" using c0 ne(2) uniq by blast
        with True ne(3) show ?thesis unfolding s1 by simp
      next
        case False
        then show ?thesis unfolding s1 by simp
      qed
      then have "stone_group n g opp q = stone_group n g1 opp q" by (rule stone_group_cong)
      with m(1) have m1: "m \<in> stone_group n g1 opp q" by simp
      with False m(2) have "r \<noteq> ?c" by blast
      with m(3) have "stone n g1 0 r" by (rule e01)
      with m1 m(2) show ?thesis by blast
    qed
    then obtain m r where m: "m \<in> stone_group n g1 opp q" "adjacent m r" "stone n g1 0 r"
      by blast
    from m(1) sub have "m \<in> stone_group n g2 opp q" by blast
    then have "r \<in> liberties n g2 (stone_group n g2 opp q)"
      using m(2) e12 [OF m(3)] by (rule libertiesI)
    with popp show ?thesis by blast
  qed
qed

lemma wf_board_players:
  assumes "wf_board n b"
  shows "current_player b \<noteq> 0" and "3 - current_player b \<noteq> 0"
    and "3 - current_player b \<noteq> current_player b"
  using assms by (auto simp: wf_board_def)

lemma stone_after_place:
  assumes "wf_board n b" and "is_valid_move b mx my"
  shows "stone n (board (snd (place_stone b mx my))) p q \<longleftrightarrow>
           (if q \<in> captured_by b mx my then p = 0
            else if q = (mx, my) then p = current_player b
            else stone n (board b) p q)"
proof -
  from assms(1) have n: "size_b b = n" and wf: "wf_grid n (board b)" by (simp_all add: wf_board_def)
  from assms(2) have inb: "in_bounds n mx my" using n by (auto simp: is_valid_move_iff)
  have wf1: "wf_grid n (placed_grid b mx my)"
    unfolding placed_grid_def using wf by (rule wf_grid_set_cell)
  have sub: "captured_by b mx my \<subseteq> cells_of n"
    unfolding captured_by_def n by (rule captured_set_in_cells)
  have "stone n (board (snd (place_stone b mx my))) p q \<longleftrightarrow>
        (if q \<in> captured_by b mx my then p = 0 else stone n (placed_grid b mx my) p q)"
    unfolding place_stone_valid(3) [OF assms(2)] using wf1 sub by (rule stone_remove_stones)
  also have "stone n (placed_grid b mx my) p q \<longleftrightarrow>
        (if q = (mx, my) then p = current_player b else stone n (board b) p q)"
    unfolding placed_grid_def using wf inb by (rule stone_set_cell)
  finally show ?thesis .
qed

lemma captured_by_opponent:
  assumes "wf_board n b" and "is_valid_move b mx my" and "q \<in> captured_by b mx my"
  shows "stone n (board b) (3 - current_player b) q" and "q \<noteq> (mx, my)"
proof -
  from assms(1) have n: "size_b b = n" and wf: "wf_grid n (board b)"
    and me: "current_player b = 1 \<or> current_player b = 2" by (simp_all add: wf_board_def)
  from assms(2) have inb: "in_bounds n mx my" using n by (auto simp: is_valid_move_iff)
  from assms(3) have "stone n (placed_grid b mx my) (3 - current_player b) q"
    unfolding captured_by_def n by (rule captured_set_stone)
  then have *: "if q = (mx, my) then 3 - current_player b = current_player b
             else stone n (board b) (3 - current_player b) q"
    unfolding placed_grid_def stone_set_cell [OF wf inb] .
  from me have "3 - current_player b \<noteq> current_player b" by auto
  with * show "q \<noteq> (mx, my)" by (auto split: if_splits)
  with * show "stone n (board b) (3 - current_player b) q" by simp
qed

lemma stone_init: "stone n (board (init_board n)) p q \<Longrightarrow> p = 0"
proof -
  assume st: "stone n (board (init_board n)) p q"
  obtain ax ay where q: "q = (ax, ay)" by (cases q)
  from st have "in_bounds n ax ay" and "cell (board (init_board n)) ax ay = p" by (simp_all add: q)
  moreover from this(1) have "cell (board (init_board n)) ax ay = 0"
    by (simp add: init_board_def cell_def in_bounds_def)
  ultimately show "p = 0" by simp
qed

lemma all_alive_init: "all_alive n (board (init_board n))"
  unfolding all_alive_def using stone_init by blast

lemma all_alive_place:
  assumes "wf_board n b" and "all_alive n (board b)"
  shows "all_alive n (board (snd (place_stone b mx my)))"
proof (cases "is_valid_move b mx my")
  case False
  with assms(2) show ?thesis by (simp add: place_stone_def)
next
  case True
  from assms(1) have n: "size_b b = n" and wf: "wf_grid n (board b)" "cells_ok (board b)"
    and me: "current_player b = 1 \<or> current_player b = 2" by (simp_all add: wf_board_def)
  from True have c: "in_bounds n mx my" "cell (board b) mx my = 0"
    and legal: "captured_by b mx my \<noteq> {} \<or>
      liberties n (placed_grid b mx my)
        (stone_group n (placed_grid b mx my) (current_player b) (mx, my)) \<noteq> {}"
    using n by (auto simp: is_valid_move_iff)
  have "all_alive n (remove_stones (captured_by b mx my) (placed_grid b mx my))"
    using wf me refl c assms(2) _ _ refl
  proof (rule place_keeps_alive)
    show "placed_grid b mx my = set_cell (board b) mx my (current_player b)"
      by (simp add: placed_grid_def)
    show "captured_by b mx my = captured_set n (placed_grid b mx my) (3 - current_player b) (mx, my)"
      by (simp add: captured_by_def n)
    show "captured_by b mx my \<noteq> {} \<or>
      liberties n (placed_grid b mx my)
        (stone_group n (placed_grid b mx my) (current_player b) (mx, my)) \<noteq> {}"
      by (rule legal)
  qed
  then show ?thesis by (simp add: place_stone_valid(3) [OF True])
qed

lemma reachable_all_alive: "reachable n b \<Longrightarrow> all_alive n (board b)"
proof (induction rule: reachable.induct)
  case fresh
  show ?case by (rule all_alive_init)
next
  case (placed b mx my)
  from placed.hyps have "wf_board n b" by (rule reachable_wf_board)
  then show ?case using placed.IH by (rule all_alive_place)
next
  case (passed b)
  then show ?case by (simp add: pass_move_def Let_def)
qed

section \<open>Sequences of moves and the ko point\<close>

text \<open>A sequence of calls: a negative first coordinate stands for \<open>pass_move\<close>.\<close>

definition play :: "go_board \<Rightarrow> pos list \<Rightarrow> go_board" where
  "play b ms = fold (\<lambda>(mx, my) b'. if mx < 0 then pass_move b' else snd (place_stone b' mx my)) ms b"

lemma reachable_play: "reachable n b \<Longrightarrow> reachable n (play b ms)"
proof (induction ms arbitrary: b)
  case Nil
  then show ?case by (simp add: play_def)
next
  case (Cons m ms)
  obtain mx my where m: "m = (mx, my)" by (cases m)
  have "reachable n (if mx < 0 then pass_move b else snd (place_stone b mx my))"
    using Cons.prems by (auto intro: reachable.intros)
  then have "reachable n (play (if mx < 0 then pass_move b else snd (place_stone b mx my)) ms)"
    by (rule Cons.IH)
  then show ?case by (simp add: play_def m)
qed

lemma ko_point_place:
  assumes "is_valid_move b mx my" and "ko_point (snd (place_stone b mx my)) = Some k"
  shows "captured_by b mx my = {k}"
    and "count_liberties_of_group (size_b b) (board (snd (place_stone b mx my)))
           (get_group_at (size_b b) (board (snd (place_stone b mx my))) mx my (current_player b)) = 1"
proof -
  from assms(2) have c1: "card (captured_by b mx my) = 1" and k: "k = the_elem (captured_by b mx my)"
    and l: "count_liberties_of_group (size_b b) (remove_stones (captured_by b mx my) (placed_grid b mx my))
                 (get_group_at (size_b b) (remove_stones (captured_by b mx my) (placed_grid b mx my))
                    mx my (current_player b)) = 1"
    unfolding place_stone_valid(8) [OF assms(1)] by (auto split: if_splits)
  from c1 obtain k' where "captured_by b mx my = {k'}" by (rule card_1_singletonE)
  with k show "captured_by b mx my = {k}" by simp
  from l show "count_liberties_of_group (size_b b) (board (snd (place_stone b mx my)))
           (get_group_at (size_b b) (board (snd (place_stone b mx my))) mx my (current_player b)) = 1"
    by (simp add: place_stone_valid(3) [OF assms(1)])
qed

lemma ko_point_empty:
  "reachable n b \<Longrightarrow> ko_point b = Some k \<Longrightarrow> stone n (board b) 0 k"
proof (induction arbitrary: k rule: reachable.induct)
  case fresh
  then show ?case by (simp add: init_board_def)
next
  case (placed b mx my)
  show ?case
  proof (cases "is_valid_move b mx my")
    case False
    with placed show ?thesis by (simp add: place_stone_def)
  next
    case True
    from placed.hyps have wf: "wf_board n b" by (rule reachable_wf_board)
    from True placed.prems have "k \<in> captured_by b mx my" by (simp add: ko_point_place(1))
    then show ?thesis by (simp add: stone_after_place [OF wf True])
  qed
next
  case (passed b)
  then show ?case by (simp add: pass_move_def Let_def)
qed

lemma ko_point_origin:
  "reachable n b \<Longrightarrow> ko_point b = Some k \<Longrightarrow>
   \<exists>b0 mx my. reachable n b0 \<and> is_valid_move b0 mx my \<and> b = snd (place_stone b0 mx my) \<and>
     captured_by b0 mx my = {k} \<and>
     card (liberties n (board b) (stone_group n (board b) (current_player b0) (mx, my))) = 1"
proof (induction arbitrary: k rule: reachable.induct)
  case fresh
  then show ?case by (simp add: init_board_def)
next
  case (placed b mx my)
  show ?case
  proof (cases "is_valid_move b mx my")
    case False
    with placed show ?thesis by (simp add: place_stone_def)
  next
    case True
    from placed.hyps have wf: "wf_board n b" by (rule reachable_wf_board)
    then have n: "size_b b = n" by (simp add: wf_board_def)
    from True have inb: "in_bounds n mx my" using n by (auto simp: is_valid_move_iff)
    from ko_point_place [OF True placed.prems]
    have "captured_by b mx my = {k}"
      and "card (liberties n (board (snd (place_stone b mx my)))
             (stone_group n (board (snd (place_stone b mx my))) (current_player b) (mx, my))) = 1"
      by (simp_all add: n count_liberties_of_group_eq get_group_at_stone_group [OF inb])
    with placed.hyps True show ?thesis by blast
  qed
next
  case (passed b)
  then show ?case by (simp add: pass_move_def Let_def)
qed

section \<open>The territory flood fill\<close>

text \<open>
  What the territory loop establishes, stated on its triple of results: a cell is
  accounted for in a triple when, if it is vacant, it is in the region, and if it holds
  a black or white stone, the corresponding flag is set.
\<close>

definition vacant :: "int \<Rightarrow> grid \<Rightarrow> pos \<Rightarrow> bool" where
  "vacant n g q \<longleftrightarrow>
     in_bounds n (fst q) (snd q) \<and> cell g (fst q) (snd q) \<noteq> 1 \<and> cell g (fst q) (snd q) \<noteq> 2"

definition sees :: "int \<Rightarrow> grid \<Rightarrow> bool \<times> bool \<times> pos set \<Rightarrow> pos \<Rightarrow> bool" where
  "sees n g T q \<longleftrightarrow>
     (vacant n g q \<longrightarrow> q \<in> snd (snd T)) \<and>
     (stone n g 1 q \<longrightarrow> fst T) \<and> (stone n g 2 q \<longrightarrow> fst (snd T))"

definition below :: "bool \<times> bool \<times> pos set \<Rightarrow> bool \<times> bool \<times> pos set \<Rightarrow> bool" where
  "below T T' \<longleftrightarrow>
     (fst T \<longrightarrow> fst T') \<and> (fst (snd T) \<longrightarrow> fst (snd T')) \<and> snd (snd T) \<subseteq> snd (snd T')"

lemma below_refl: "below T T"
  by (simp add: below_def)

lemma below_trans: "below T T' \<Longrightarrow> below T' T'' \<Longrightarrow> below T T''"
  unfolding below_def by blast

lemma sees_below: "below T T' \<Longrightarrow> sees n g T q \<Longrightarrow> sees n g T' q"
  unfolding below_def sees_def by blast

lemma territory_loop_seen:
  "(cx, cy) \<in> V \<Longrightarrow>
   territory_loop n g ((cx, cy) # stack) V tb tw R = territory_loop n g stack V tb tw R"
  by (simp add: territory_loop.simps(2) [of n g cx cy stack V tb tw R])

lemma territory_loop_outside:
  "(cx, cy) \<notin> V \<Longrightarrow> \<not> in_bounds n cx cy \<Longrightarrow>
   territory_loop n g ((cx, cy) # stack) V tb tw R =
   territory_loop n g stack (insert (cx, cy) V) tb tw R"
  by (simp add: territory_loop.simps(2) [of n g cx cy stack V tb tw R])

lemma territory_loop_black:
  "(cx, cy) \<notin> V \<Longrightarrow> stone n g 1 (cx, cy) \<Longrightarrow>
   territory_loop n g ((cx, cy) # stack) V tb tw R =
   territory_loop n g stack (insert (cx, cy) V) True tw R"
  by (simp add: territory_loop.simps(2) [of n g cx cy stack V tb tw R])

lemma territory_loop_white:
  "(cx, cy) \<notin> V \<Longrightarrow> stone n g 2 (cx, cy) \<Longrightarrow>
   territory_loop n g ((cx, cy) # stack) V tb tw R =
   territory_loop n g stack (insert (cx, cy) V) tb True R"
  by (simp add: territory_loop.simps(2) [of n g cx cy stack V tb tw R])

lemma territory_loop_vacant:
  "(cx, cy) \<notin> V \<Longrightarrow> vacant n g (cx, cy) \<Longrightarrow>
   territory_loop n g ((cx, cy) # stack) V tb tw R =
   territory_loop n g (rev (neighbours cx cy) @ stack) (insert (cx, cy) V) tb tw (insert (cx, cy) R)"
  by (simp add: territory_loop.simps(2) [of n g cx cy stack V tb tw R] vacant_def)

lemma territory_loop_cases [case_names Nil seen outside black white vacant]:
  assumes "\<And>n g V tb tw R. P n g [] V tb tw R"
    and "\<And>n g cx cy stack V tb tw R.
           (cx, cy) \<in> V \<Longrightarrow> P n g stack V tb tw R \<Longrightarrow> P n g ((cx, cy) # stack) V tb tw R"
    and "\<And>n g cx cy stack V tb tw R.
           (cx, cy) \<notin> V \<Longrightarrow> \<not> in_bounds n cx cy \<Longrightarrow>
           P n g stack (insert (cx, cy) V) tb tw R \<Longrightarrow> P n g ((cx, cy) # stack) V tb tw R"
    and "\<And>n g cx cy stack V tb tw R.
           (cx, cy) \<notin> V \<Longrightarrow> stone n g 1 (cx, cy) \<Longrightarrow>
           P n g stack (insert (cx, cy) V) True tw R \<Longrightarrow> P n g ((cx, cy) # stack) V tb tw R"
    and "\<And>n g cx cy stack V tb tw R.
           (cx, cy) \<notin> V \<Longrightarrow> stone n g 2 (cx, cy) \<Longrightarrow>
           P n g stack (insert (cx, cy) V) tb True R \<Longrightarrow> P n g ((cx, cy) # stack) V tb tw R"
    and "\<And>n g cx cy stack V tb tw R.
           (cx, cy) \<notin> V \<Longrightarrow> vacant n g (cx, cy) \<Longrightarrow>
           P n g (rev (neighbours cx cy) @ stack) (insert (cx, cy) V) tb tw (insert (cx, cy) R) \<Longrightarrow>
           P n g ((cx, cy) # stack) V tb tw R"
  shows "P n g stack V tb tw R"
proof (induction n g stack V tb tw R rule: territory_loop.induct)
  case (1 n g V tb tw R)
  show ?case by (rule assms(1))
next
  case (2 n g cx cy stack V tb tw R)
  consider (a) "(cx, cy) \<in> V"
    | (b) "(cx, cy) \<notin> V" "\<not> in_bounds n cx cy"
    | (c) "(cx, cy) \<notin> V" "in_bounds n cx cy" "cell g cx cy = 1"
    | (d) "(cx, cy) \<notin> V" "in_bounds n cx cy" "cell g cx cy \<noteq> 1" "cell g cx cy = 2"
    | (e) "(cx, cy) \<notin> V" "in_bounds n cx cy" "cell g cx cy \<noteq> 1" "cell g cx cy \<noteq> 2"
    by blast
  then show ?case
  proof cases
    case a
    with "2.IH"(1) show ?thesis by (blast intro: assms(2))
  next
    case b
    with "2.IH"(2) show ?thesis by (blast intro: assms(3))
  next
    case c
    with "2.IH"(3) have "P n g stack (insert (cx, cy) V) True tw R" by blast
    moreover from c have "stone n g 1 (cx, cy)" by simp
    ultimately show ?thesis using c(1) by (blast intro: assms(4))
  next
    case d
    with "2.IH"(4) have "P n g stack (insert (cx, cy) V) tb True R" by blast
    moreover from d have "stone n g 2 (cx, cy)" by simp
    ultimately show ?thesis using d(1) by (blast intro: assms(5))
  next
    case e
    with "2.IH"(5) have "P n g (rev (neighbours cx cy) @ stack) (insert (cx, cy) V) tb tw (insert (cx, cy) R)"
      by blast
    moreover from e have "vacant n g (cx, cy)" by (simp add: vacant_def)
    ultimately show ?thesis using e(1) by (blast intro: assms(6))
  qed
qed

lemma territory_loop_mono: "below (tb, tw, R) (territory_loop n g stack V tb tw R)"
proof (induction n g stack V tb tw R rule: territory_loop_cases)
  case (Nil n g V tb tw R)
  show ?case by (simp add: territory_loop.simps(1) below_refl)
next
  case (seen n g cx cy stack V tb tw R)
  then show ?case by (simp add: territory_loop_seen)
next
  case (outside n g cx cy stack V tb tw R)
  then show ?case by (simp add: territory_loop_outside)
next
  case (black n g cx cy stack V tb tw R)
  have "below (tb, tw, R) (True, tw, R)" by (simp add: below_def)
  then show ?case using black.IH unfolding territory_loop_black [OF black.hyps] by (rule below_trans)
next
  case (white n g cx cy stack V tb tw R)
  have "below (tb, tw, R) (tb, True, R)" by (simp add: below_def)
  then show ?case using white.IH unfolding territory_loop_white [OF white.hyps] by (rule below_trans)
next
  case (vacant n g cx cy stack V tb tw R)
  have "below (tb, tw, R) (tb, tw, insert (cx, cy) R)" by (auto simp: below_def)
  then show ?case using vacant.IH unfolding territory_loop_vacant [OF vacant.hyps] by (rule below_trans)
qed

lemma sees_outside: "\<not> in_bounds n (fst q) (snd q) \<Longrightarrow> sees n g T q"
  by (simp add: sees_def vacant_def stone_def)

lemma sees_black: "stone n g 1 q \<Longrightarrow> sees n g (True, tw, R) q"
  by (simp add: sees_def vacant_def stone_def)

lemma sees_white: "stone n g 2 q \<Longrightarrow> sees n g (tb, True, R) q"
  by (simp add: sees_def vacant_def stone_def)

lemma sees_vacant: "vacant n g q \<Longrightarrow> sees n g (tb, tw, insert q R) q"
  by (auto simp: sees_def vacant_def stone_def)

lemma territory_loop_stack:
  "\<forall>q \<in> V. sees n g (tb, tw, R) q \<Longrightarrow> s \<in> set stack \<Longrightarrow>
   sees n g (territory_loop n g stack V tb tw R) s"
proof (induction n g stack V tb tw R rule: territory_loop_cases)
  case (Nil n g V tb tw R)
  then show ?case by simp
next
  case (seen n g cx cy stack V tb tw R)
  show ?case
  proof (cases "s = (cx, cy)")
    case True
    with seen.hyps seen.prems(1) have "sees n g (tb, tw, R) s" by blast
    with territory_loop_mono show ?thesis by (rule sees_below)
  next
    case False
    with seen.prems have "s \<in> set stack" by simp
    with seen.IH seen.prems(1) show ?thesis by (simp add: territory_loop_seen [OF seen.hyps])
  qed
next
  case (outside n g cx cy stack V tb tw R)
  have J: "\<forall>q \<in> insert (cx, cy) V. sees n g (tb, tw, R) q"
    using outside.prems(1) outside.hyps(2) by (auto intro: sees_outside)
  show ?case
  proof (cases "s = (cx, cy)")
    case True
    with outside.hyps(2) show ?thesis by (simp add: sees_outside)
  next
    case False
    with outside.prems have "s \<in> set stack" by simp
    with outside.IH J show ?thesis by (simp add: territory_loop_outside [OF outside.hyps])
  qed
next
  case (black n g cx cy stack V tb tw R)
  have b: "below (tb, tw, R) (True, tw, R)" by (simp add: below_def)
  have J: "\<forall>q \<in> insert (cx, cy) V. sees n g (True, tw, R) q"
    using black.prems(1) black.hyps(2) b by (auto intro: sees_black sees_below)
  show ?case
  proof (cases "s = (cx, cy)")
    case True
    with J have "sees n g (True, tw, R) s" by simp
    with territory_loop_mono show ?thesis
      unfolding territory_loop_black [OF black.hyps] by (rule sees_below)
  next
    case False
    with black.prems have "s \<in> set stack" by simp
    with black.IH J show ?thesis by (simp add: territory_loop_black [OF black.hyps])
  qed
next
  case (white n g cx cy stack V tb tw R)
  have b: "below (tb, tw, R) (tb, True, R)" by (simp add: below_def)
  have J: "\<forall>q \<in> insert (cx, cy) V. sees n g (tb, True, R) q"
    using white.prems(1) white.hyps(2) b by (auto intro: sees_white sees_below)
  show ?case
  proof (cases "s = (cx, cy)")
    case True
    with J have "sees n g (tb, True, R) s" by simp
    with territory_loop_mono show ?thesis
      unfolding territory_loop_white [OF white.hyps] by (rule sees_below)
  next
    case False
    with white.prems have "s \<in> set stack" by simp
    with white.IH J show ?thesis by (simp add: territory_loop_white [OF white.hyps])
  qed
next
  case (vacant n g cx cy stack V tb tw R)
  have b: "below (tb, tw, R) (tb, tw, insert (cx, cy) R)" by (auto simp: below_def)
  have J: "\<forall>q \<in> insert (cx, cy) V. sees n g (tb, tw, insert (cx, cy) R) q"
    using vacant.prems(1) vacant.hyps(2) b by (auto intro: sees_vacant sees_below)
  show ?case
  proof (cases "s = (cx, cy)")
    case True
    with J have "sees n g (tb, tw, insert (cx, cy) R) s" by simp
    with territory_loop_mono show ?thesis
      unfolding territory_loop_vacant [OF vacant.hyps] by (rule sees_below)
  next
    case False
    with vacant.prems have "s \<in> set (rev (neighbours cx cy) @ stack)" by simp
    with vacant.IH J show ?thesis by (simp add: territory_loop_vacant [OF vacant.hyps])
  qed
qed

definition surrounded :: "int \<Rightarrow> grid \<Rightarrow> bool \<times> bool \<times> pos set \<Rightarrow> bool" where
  "surrounded n g T \<longleftrightarrow> (\<forall>q \<in> snd (snd T). \<forall>r. adjacent q r \<longrightarrow> sees n g T r)"

lemma territory_loop_surrounded:
  "\<forall>q \<in> V. sees n g (tb, tw, R) q \<Longrightarrow>
   \<forall>q \<in> R. \<forall>r. adjacent q r \<longrightarrow> r \<in> V \<or> r \<in> set stack \<Longrightarrow>
   surrounded n g (territory_loop n g stack V tb tw R)"
proof (induction n g stack V tb tw R rule: territory_loop_cases)
  case (Nil n g V tb tw R)
  then show ?case by (auto simp: territory_loop.simps(1) surrounded_def)
next
  case (seen n g cx cy stack V tb tw R)
  have "\<forall>q \<in> R. \<forall>r. adjacent q r \<longrightarrow> r \<in> V \<or> r \<in> set stack"
    using seen.prems(2) seen.hyps by auto
  with seen.IH seen.prems(1) show ?case by (simp add: territory_loop_seen [OF seen.hyps])
next
  case (outside n g cx cy stack V tb tw R)
  have J: "\<forall>q \<in> insert (cx, cy) V. sees n g (tb, tw, R) q"
    using outside.prems(1) outside.hyps(2) by (auto intro: sees_outside)
  have F: "\<forall>q \<in> R. \<forall>r. adjacent q r \<longrightarrow> r \<in> insert (cx, cy) V \<or> r \<in> set stack"
    using outside.prems(2) by auto
  from outside.IH [OF J F] show ?case by (simp add: territory_loop_outside [OF outside.hyps])
next
  case (black n g cx cy stack V tb tw R)
  have b: "below (tb, tw, R) (True, tw, R)" by (simp add: below_def)
  have J: "\<forall>q \<in> insert (cx, cy) V. sees n g (True, tw, R) q"
    using black.prems(1) black.hyps(2) b by (auto intro: sees_black sees_below)
  have F: "\<forall>q \<in> R. \<forall>r. adjacent q r \<longrightarrow> r \<in> insert (cx, cy) V \<or> r \<in> set stack"
    using black.prems(2) by auto
  from black.IH [OF J F] show ?case by (simp add: territory_loop_black [OF black.hyps])
next
  case (white n g cx cy stack V tb tw R)
  have b: "below (tb, tw, R) (tb, True, R)" by (simp add: below_def)
  have J: "\<forall>q \<in> insert (cx, cy) V. sees n g (tb, True, R) q"
    using white.prems(1) white.hyps(2) b by (auto intro: sees_white sees_below)
  have F: "\<forall>q \<in> R. \<forall>r. adjacent q r \<longrightarrow> r \<in> insert (cx, cy) V \<or> r \<in> set stack"
    using white.prems(2) by auto
  from white.IH [OF J F] show ?case by (simp add: territory_loop_white [OF white.hyps])
next
  case (vacant n g cx cy stack V tb tw R)
  have b: "below (tb, tw, R) (tb, tw, insert (cx, cy) R)" by (auto simp: below_def)
  have J: "\<forall>q \<in> insert (cx, cy) V. sees n g (tb, tw, insert (cx, cy) R) q"
    using vacant.prems(1) vacant.hyps(2) b by (auto intro: sees_vacant sees_below)
  have F: "\<forall>q \<in> insert (cx, cy) R. \<forall>r. adjacent q r \<longrightarrow>
             r \<in> insert (cx, cy) V \<or> r \<in> set (rev (neighbours cx cy) @ stack)"
  proof (intro ballI allI impI)
    fix q r assume q: "q \<in> insert (cx, cy) R" and ar: "adjacent q r"
    show "r \<in> insert (cx, cy) V \<or> r \<in> set (rev (neighbours cx cy) @ stack)"
    proof (cases "q = (cx, cy)")
      case True
      with ar show ?thesis by (simp add: adjacent_pair)
    next
      case False
      with q vacant.prems(2) ar have "r \<in> V \<or> r \<in> set ((cx, cy) # stack)" by blast
      then show ?thesis by auto
    qed
  qed
  from vacant.IH [OF J F] show ?case by (simp add: territory_loop_vacant [OF vacant.hyps])
qed

lemma territory_loop_sound:
  "surrounded n g T \<Longrightarrow> below (tb, tw, R) T \<Longrightarrow> \<forall>s \<in> set stack. sees n g T s \<Longrightarrow>
   below (territory_loop n g stack V tb tw R) T"
proof (induction n g stack V tb tw R rule: territory_loop_cases)
  case (Nil n g V tb tw R)
  then show ?case by (simp add: territory_loop.simps(1))
next
  case (seen n g cx cy stack V tb tw R)
  then show ?case by (simp add: territory_loop_seen)
next
  case (outside n g cx cy stack V tb tw R)
  then show ?case by (simp add: territory_loop_outside)
next
  case (black n g cx cy stack V tb tw R)
  from black.prems(3) black.hyps(2) have "fst T" by (simp add: sees_def)
  with black.prems(2) have "below (True, tw, R) T" by (simp add: below_def)
  with black.IH black.prems(1,3) show ?case by (simp add: territory_loop_black [OF black.hyps])
next
  case (white n g cx cy stack V tb tw R)
  from white.prems(3) white.hyps(2) have "fst (snd T)" by (simp add: sees_def)
  with white.prems(2) have "below (tb, True, R) T" by (simp add: below_def)
  with white.IH white.prems(1,3) show ?case by (simp add: territory_loop_white [OF white.hyps])
next
  case (vacant n g cx cy stack V tb tw R)
  from vacant.prems(3) vacant.hyps(2) have inT: "(cx, cy) \<in> snd (snd T)" by (simp add: sees_def)
  with vacant.prems(2) have b: "below (tb, tw, insert (cx, cy) R) T" by (simp add: below_def)
  have "\<forall>s \<in> set (rev (neighbours cx cy) @ stack). sees n g T s"
    using vacant.prems(1,3) inT by (auto simp: surrounded_def adjacent_pair)
  with vacant.IH vacant.prems(1) b show ?case by (simp add: territory_loop_vacant [OF vacant.hyps])
qed

section \<open>Territory and the score as counts\<close>

text \<open>
  Territory, as the rules describe it: the region of an empty cell is its connected
  component of empty cells; a set of cells touches a colour when a stone of that colour
  is adjacent to one of them; an empty cell is territory of colour \<open>p\<close> when its region
  touches \<open>p\<close> and does not touch the other colour \<open>3 - p\<close>.
\<close>

definition touches :: "int \<Rightarrow> grid \<Rightarrow> pos set \<Rightarrow> int \<Rightarrow> bool" where
  "touches n g A p \<longleftrightarrow> (\<exists>q \<in> A. \<exists>r. adjacent q r \<and> stone n g p r)"

definition stones_of :: "int \<Rightarrow> grid \<Rightarrow> int \<Rightarrow> pos set" where
  "stones_of n g p = {q. stone n g p q}"

definition territory_of :: "int \<Rightarrow> grid \<Rightarrow> int \<Rightarrow> pos set" where
  "territory_of n g p =
     {q. stone n g 0 q \<and> touches n g (stone_group n g 0 q) p \<and>
         \<not> touches n g (stone_group n g 0 q) (3 - p)}"

lemma touchesI: "q \<in> A \<Longrightarrow> adjacent q r \<Longrightarrow> stone n g p r \<Longrightarrow> touches n g A p"
  unfolding touches_def by blast

lemma surroundedD:
  "surrounded n g T \<Longrightarrow> q \<in> snd (snd T) \<Longrightarrow> adjacent q r \<Longrightarrow> sees n g T r"
  unfolding surrounded_def by blast

lemma sees_blackD: "sees n g T r \<Longrightarrow> stone n g 1 r \<Longrightarrow> fst T"
  unfolding sees_def by blast

lemma sees_whiteD: "sees n g T r \<Longrightarrow> stone n g 2 r \<Longrightarrow> fst (snd T)"
  unfolding sees_def by blast

lemma sees_vacantD: "sees n g T r \<Longrightarrow> vacant n g r \<Longrightarrow> r \<in> snd (snd T)"
  unfolding sees_def by blast

lemma vacant_iff:
  assumes "wf_grid n g" and "cells_ok g"
  shows "vacant n g q \<longleftrightarrow> stone n g 0 q"
proof (cases "in_bounds n (fst q) (snd q)")
  case True
  with assms have "cell g (fst q) (snd q) = 0 \<or> cell g (fst q) (snd q) = 1 \<or> cell g (fst q) (snd q) = 2"
    by (rule cell_in_range)
  with True show ?thesis by (auto simp: vacant_def stone_def)
next
  case False
  then show ?thesis by (simp add: vacant_def stone_def)
qed

lemma below_antisym: "below T T' \<Longrightarrow> below T' T \<Longrightarrow> T = T'"
  unfolding below_def by (cases T; cases T') auto

lemma territory_loop_result:
  assumes wf: "wf_grid n g" "cells_ok g" and s: "stone n g 0 s"
  shows "territory_loop n g [s] {} False False {} =
         (touches n g (stone_group n g 0 s) 1, touches n g (stone_group n g 0 s) 2,
          stone_group n g 0 s)"
proof -
  let ?G = "stone_group n g 0 s"
  let ?T = "(touches n g ?G 1, touches n g ?G 2, ?G)"
  let ?res = "territory_loop n g [s] {} False False {}"
  note vac = vacant_iff [OF wf]
  have seesT: "sees n g ?T r" if "q \<in> ?G" "adjacent q r" for q r
    unfolding sees_def vac fst_conv snd_conv using that
    by (blast intro: stone_group.step touchesI)
  have surT: "surrounded n g ?T" unfolding surrounded_def using seesT by simp
  have "s \<in> ?G" using s by (rule stone_group.start)
  moreover have "\<not> stone n g 1 s" "\<not> stone n g 2 s" using s by (simp_all add: stone_def)
  ultimately have startT: "\<forall>q \<in> set [s]. sees n g ?T q" by (simp add: sees_def)
  have "below (False, False, {}) ?T" by (simp add: below_def)
  with surT have le: "below ?res ?T" using startT by (rule territory_loop_sound)
  have sur: "surrounded n g ?res"
    by (rule territory_loop_surrounded) simp_all
  have "sees n g ?res s" by (rule territory_loop_stack) simp_all
  then have sin: "s \<in> snd (snd ?res)" using s by (simp add: sees_def vac)
  have "closed_under n g 0 (snd (snd ?res))"
    unfolding closed_under_def
  proof (intro ballI allI impI)
    fix q r assume "q \<in> snd (snd ?res)" and ar: "adjacent q r \<and> stone n g 0 r"
    with sur have "sees n g ?res r" by (blast intro: surroundedD)
    moreover from ar have "vacant n g r" by (simp add: vac)
    ultimately show "r \<in> snd (snd ?res)" by (rule sees_vacantD)
  qed
  then have sub: "?G \<subseteq> snd (snd ?res)" using sin by (rule stone_group_subset_closed)
  have t: "fst ?res" if "touches n g ?G 1"
  proof -
    from that obtain q r where qr: "q \<in> ?G" "adjacent q r" "stone n g 1 r"
      unfolding touches_def by blast
    with sub sur have "sees n g ?res r" by (blast intro: surroundedD)
    then show ?thesis using qr(3) by (rule sees_blackD)
  qed
  have t2: "fst (snd ?res)" if "touches n g ?G 2"
  proof -
    from that obtain q r where qr: "q \<in> ?G" "adjacent q r" "stone n g 2 r"
      unfolding touches_def by blast
    with sub sur have "sees n g ?res r" by (blast intro: surroundedD)
    then show ?thesis using qr(3) by (rule sees_whiteD)
  qed
  from t t2 sub have "below ?T ?res" by (simp add: below_def)
  with le show ?thesis by (rule below_antisym)
qed

lemma get_territory_owner_eq:
  assumes "wf_grid n g" and "cells_ok g" and "in_bounds n tx ty"
  shows "get_territory_owner n g tx ty =
           (if (tx, ty) \<in> territory_of n g 1 then 1
            else if (tx, ty) \<in> territory_of n g 2 then 2 else 0)"
proof (cases "cell g tx ty = 0")
  case False
  then show ?thesis by (simp add: get_territory_owner_def territory_of_def)
next
  case True
  with assms(3) have "stone n g 0 (tx, ty)" by simp
  with assms(1,2) have "territory_loop n g [(tx, ty)] {} False False {} =
         (touches n g (stone_group n g 0 (tx, ty)) 1, touches n g (stone_group n g 0 (tx, ty)) 2,
          stone_group n g 0 (tx, ty))"
    by (rule territory_loop_result)
  with True assms(3) show ?thesis
    by (auto simp: get_territory_owner_def territory_of_def)
qed

definition all_cells :: "int \<Rightarrow> pos list" where
  "all_cells n = concat (map (\<lambda>vy. map (\<lambda>vx. (vx, vy)) [0..n - 1]) [0..n - 1])"

lemma set_all_cells: "set (all_cells n) = cells_of n"
  by (auto simp: all_cells_def cells_of_def)

lemma distinct_all_cells: "distinct (all_cells n)"
proof -
  have "sorted_wrt row_major_less
          (concat (map (\<lambda>vy. map (\<lambda>vx. (vx, vy)) (filter ((\<lambda>_ _. True) vy) [0..n - 1])) [0..n - 1]))"
    by (rule rows_sorted) (rule sorted_wrt_upto)
  then have "sorted_wrt row_major_less (all_cells n)" by (simp add: all_cells_def)
  then show ?thesis by (rule sorted_wrt_irrefl_distinct) (simp add: row_major_less_def)
qed

lemma fold_concat_fold: "fold f (concat xss) a = fold (fold f) xss a"
  by (induction xss arbitrary: a) simp_all

lemma get_score_fold:
  "get_score b =
     fold (\<lambda>q acc. score_cell (size_b b) (board b) acc (fst q) (snd q)) (all_cells (size_b b))
       (captured_black b, of_int (captured_white b) + 13 / 2)"
  by (simp add: get_score_def all_cells_def fold_concat_fold fold_map comp_def)

lemma territory_disjoint: "q \<in> territory_of n g 1 \<Longrightarrow> q \<notin> territory_of n g 2"
  by (simp add: territory_of_def)

lemma score_cell_eq:
  assumes "wf_grid n g" and "cells_ok g" and "in_bounds n sx sy"
  shows "score_cell n g (bs, ws) sx sy =
           (bs + (if (sx, sy) \<in> stones_of n g 1 \<union> territory_of n g 1 then 1 else 0),
            ws + (if (sx, sy) \<in> stones_of n g 2 \<union> territory_of n g 2 then 1 else 0))"
proof -
  from assms have "cell g sx sy = 0 \<or> cell g sx sy = 1 \<or> cell g sx sy = 2" by (rule cell_in_range)
  then consider (e) "cell g sx sy = 0" | (b) "cell g sx sy = 1" | (w) "cell g sx sy = 2" by blast
  then show ?thesis
  proof cases
    case b
    with assms(3) show ?thesis
      by (simp add: score_cell_def stones_of_def territory_of_def)
  next
    case w
    with assms(3) show ?thesis
      by (simp add: score_cell_def stones_of_def territory_of_def)
  next
    case e
    with assms(3) have ns: "(sx, sy) \<notin> stones_of n g 1" "(sx, sy) \<notin> stones_of n g 2"
      by (simp_all add: stones_of_def)
    from e ns territory_disjoint [of "(sx, sy)" n g] show ?thesis
      by (auto simp: score_cell_def get_territory_owner_eq [OF assms])
  qed
qed

lemma fold_score_cells:
  assumes "wf_grid n g" and "cells_ok g"
  shows "\<forall>q \<in> set qs. in_bounds n (fst q) (snd q) \<Longrightarrow>
     fold (\<lambda>q acc. score_cell n g acc (fst q) (snd q)) qs (bs, ws) =
       (bs + int (length (filter (\<lambda>q. q \<in> stones_of n g 1 \<union> territory_of n g 1) qs)),
        ws + of_nat (length (filter (\<lambda>q. q \<in> stones_of n g 2 \<union> territory_of n g 2) qs)))"
proof (induction qs arbitrary: bs ws)
  case Nil
  show ?case by simp
next
  case (Cons q qs)
  obtain sx sy where q: "q = (sx, sy)" by (cases q)
  from Cons.prems have inb: "in_bounds n sx sy" and rest: "\<forall>q \<in> set qs. in_bounds n (fst q) (snd q)"
    by (simp_all add: q)
  show ?case
    unfolding q fold_simps fst_conv snd_conv score_cell_eq [OF assms inb] Cons.IH [OF rest]
    by simp
qed

lemma finite_stones_of: "finite (stones_of n g p)"
proof (rule finite_subset [OF _ finite_cells_of])
  show "stones_of n g p \<subseteq> cells_of n"
    by (auto simp: stones_of_def in_bounds_cells_of [symmetric])
qed

lemma territory_of_empty: "territory_of n g p \<subseteq> stones_of n g 0"
  by (auto simp: territory_of_def stones_of_def)

lemma count_in_all_cells:
  assumes "A \<subseteq> cells_of n"
  shows "length (filter (\<lambda>q. q \<in> A) (all_cells n)) = card A"
proof -
  have "length (filter (\<lambda>q. q \<in> A) (all_cells n)) = card ({q. q \<in> A} \<inter> set (all_cells n))"
    using distinct_all_cells by (rule distinct_length_filter)
  also have "{q. q \<in> A} \<inter> set (all_cells n) = A" using assms by (auto simp: set_all_cells)
  finally show ?thesis .
qed

lemma card_points:
  assumes "p \<noteq> 0"
  shows "length (filter (\<lambda>q. q \<in> stones_of n g p \<union> territory_of n g p) (all_cells n)) =
         card (stones_of n g p) + card (territory_of n g p)"
proof -
  have sub: "stones_of n g p \<subseteq> cells_of n" "stones_of n g 0 \<subseteq> cells_of n"
    by (auto simp: stones_of_def in_bounds_cells_of [symmetric])
  with territory_of_empty [of n g p] have "stones_of n g p \<union> territory_of n g p \<subseteq> cells_of n"
    by blast
  then have "length (filter (\<lambda>q. q \<in> stones_of n g p \<union> territory_of n g p) (all_cells n)) =
        card (stones_of n g p \<union> territory_of n g p)"
    by (rule count_in_all_cells)
  also have "\<dots> = card (stones_of n g p) + card (territory_of n g p)"
  proof (rule card_Un_disjoint)
    show "finite (stones_of n g p)" by (rule finite_stones_of)
    show "finite (territory_of n g p)"
      using territory_of_empty finite_stones_of by (rule finite_subset)
    show "stones_of n g p \<inter> territory_of n g p = {}"
      using assms by (auto simp: stones_of_def territory_of_def stone_def)
  qed
  finally show ?thesis .
qed

lemma get_score_eq:
  assumes "size_b b = n" and "wf_grid n (board b)" and "cells_ok (board b)"
  shows "get_score b =
     (captured_black b + int (card (stones_of n (board b) 1)) + int (card (territory_of n (board b) 1)),
      of_int (captured_white b) + 13 / 2 + of_nat (card (stones_of n (board b) 2))
        + of_nat (card (territory_of n (board b) 2)))"
proof -
  note n = assms(1) and wf = assms(2,3)
  have inb: "\<forall>q \<in> set (all_cells n). in_bounds n (fst q) (snd q)"
    by (auto simp: set_all_cells in_bounds_cells_of)
  have pb: "int (length (filter (\<lambda>q. q \<in> stones_of n (board b) 1 \<union> territory_of n (board b) 1) (all_cells n)))
      = int (card (stones_of n (board b) 1)) + int (card (territory_of n (board b) 1))"
    using card_points [of 1 n "board b"] by simp
  have pw: "(of_nat (length (filter (\<lambda>q. q \<in> stones_of n (board b) 2 \<union> territory_of n (board b) 2) (all_cells n))) :: rat)
      = of_nat (card (stones_of n (board b) 2)) + of_nat (card (territory_of n (board b) 2))"
    using card_points [of 2 n "board b"] by simp
  show ?thesis
    unfolding get_score_fold n fold_score_cells [OF wf inb] pb pw by simp
qed

lemma get_score_init: "get_score (init_board n) = (0, 13 / 2)"
proof -
  have s: "stones_of n (board (init_board n)) p = {}" if "p \<noteq> 0" for p
    unfolding stones_of_def using that stone_init [of n p] by blast
  have t: "territory_of n (board (init_board n)) p = {}" if "p \<noteq> 0" for p
  proof -
    have "\<not> touches n (board (init_board n)) A p" for A
      unfolding touches_def using that stone_init [of n p] by blast
    then show ?thesis by (simp add: territory_of_def)
  qed
  have c: "captured_black (init_board n) = 0" "captured_white (init_board n) = 0"
    by (simp_all add: init_board_def)
  have "wf_board n (init_board n)" by (rule wf_board_init)
  then have "size_b (init_board n) = n" "wf_grid n (board (init_board n))"
    "cells_ok (board (init_board n))" by (simp_all add: wf_board_def)
  then have "get_score (init_board n) =
     (captured_black (init_board n) + int (card (stones_of n (board (init_board n)) 1))
        + int (card (territory_of n (board (init_board n)) 1)),
      of_int (captured_white (init_board n)) + 13 / 2 + of_nat (card (stones_of n (board (init_board n)) 2))
        + of_nat (card (territory_of n (board (init_board n)) 2)))"
    by (rule get_score_eq)
  then show ?thesis by (simp add: s t c)
qed

section \<open>Example games and the failure of the shape evaluator\<close>

text \<open>
  A game on the 9 by 9 board: Black fills columns 2 and 5, White columns 3 and 6, from
  the top row down, and Black adds the corner; 37 moves, White to move. Four more
  moves give a position after 41 moves.
\<close>

definition columns_game :: "pos list" where
  "columns_game =
     concat (map (\<lambda>r. [(2, r), (3, r)]) [0..8]) @ concat (map (\<lambda>r. [(5, r), (6, r)]) [0..8]) @ [(0, 0)]"

definition columns_example :: go_board where
  "columns_example = play (init_board 9) columns_game"

definition later_example :: go_board where
  "later_example = play columns_example [(8, 0), (0, 2), (8, 2), (0, 4)]"

text \<open>Two passes in a row on a small board.\<close>

definition over_example :: go_board where
  "over_example = play (init_board 2) [(- 1, - 1), (- 1, - 1)]"

lemma evaluate_move_deep_shape_error:
  "evaluate_shape ai b cx cy = Inl e \<Longrightarrow> evaluate_move_deep ai b cx cy = Inl e"
  by (simp add: evaluate_move_deep_def Let_def split: prod.splits)

lemma evaluate_shape_error: "evaluate_shape ai b cx cy = Inl e \<Longrightarrow> e = NameError"
  by (auto simp: evaluate_shape_def Let_def split: if_splits)

lemma evaluate_move_deep_error: "evaluate_move_deep ai b cx cy = Inl e \<Longrightarrow> e = NameError"
  by (auto simp: evaluate_move_deep_def Let_def split: prod.splits sum.splits
      dest: evaluate_shape_error)

lemma advanced_loop_error:
  "m \<in> set ms \<Longrightarrow> evaluate_shape ai b (fst m) (snd m) = Inl NameError \<Longrightarrow>
   advanced_loop ai b rnd ms k best_score best_move analyses = Inl NameError"
proof (induction ms arbitrary: k best_score best_move analyses)
  case Nil
  then show ?case by simp
next
  case (Cons a ms)
  obtain ax ay where a: "a = (ax, ay)" by (cases a)
  show ?case
  proof (cases "evaluate_move_deep ai b ax ay")
    case (Inl e)
    then have "e = NameError" by (rule evaluate_move_deep_error)
    with Inl show ?thesis by (simp add: a)
  next
    case (Inr r)
    have "m \<noteq> a"
    proof
      assume "m = a"
      with Cons.prems(2) have "evaluate_move_deep ai b ax ay = Inl NameError"
        by (simp add: a evaluate_move_deep_shape_error)
      with Inr show False by simp
    qed
    with Cons.prems(1) have "m \<in> set ms" by simp
    then have "advanced_loop ai b rnd ms k' bs bm an = Inl NameError" for k' bs bm an
      using Cons.prems(2) by (rule Cons.IH)
    with Inr show ?thesis by (simp add: a Let_def split: prod.splits)
  qed
qed

section \<open>Legality is capture or liberty\<close>

text \<open>
  C1. On a square grid, for a cell that is in range, empty and not the ko point,
  \<open>is_valid_move\<close> holds exactly when the stone placed there either leaves an adjacent
  group of the opponent with no liberty other than the cell itself (a capture), or else
  belongs to a group of its own colour that keeps a liberty: a move that leaves its own
  group with no liberty is legal only when it captures.
\<close>

theorem is_valid_move_capture_or_liberty:
  assumes "wf_grid (size_b b) (board b)"
    and "in_bounds (size_b b) mx my"
    and "cell (board b) mx my = 0"
    and "ko_point b \<noteq> Some (mx, my)"
  shows "is_valid_move b mx my \<longleftrightarrow>
           (\<exists>q. adjacent (mx, my) q \<and>
                stone (size_b b) (set_cell (board b) mx my (current_player b)) (3 - current_player b) q \<and>
                liberties (size_b b) (set_cell (board b) mx my (current_player b))
                  (stone_group (size_b b) (set_cell (board b) mx my (current_player b))
                     (3 - current_player b) q) - {(mx, my)} = {})
           \<or> liberties (size_b b) (set_cell (board b) mx my (current_player b))
                (stone_group (size_b b) (set_cell (board b) mx my (current_player b))
                   (current_player b) (mx, my)) \<noteq> {}"
proof -
  let ?n = "size_b b" and ?g = "set_cell (board b) mx my (current_player b)"
  let ?opp = "3 - current_player b"
  have cap: "can_capture_anything ?n ?g mx my ?opp \<longleftrightarrow>
        (\<exists>q. adjacent (mx, my) q \<and> stone ?n ?g ?opp q \<and>
           liberties ?n ?g (stone_group ?n ?g ?opp q) - {(mx, my)} = {})"
    (is "?L \<longleftrightarrow> ?R")
  proof
    assume ?L
    then obtain nx ny where q: "(nx, ny) \<in> set (neighbours mx my)" "in_bounds ?n nx ny"
        "cell ?g nx ny = ?opp"
        "\<not> group_has_liberty_excluding ?n ?g (get_group_at ?n ?g nx ny ?opp) ?opp mx my"
      unfolding can_capture_anything_def by blast
    then have "adjacent (mx, my) (nx, ny)" "stone ?n ?g ?opp (nx, ny)"
      by (simp_all add: adjacent_pair)
    moreover from q have "liberties ?n ?g (stone_group ?n ?g ?opp (nx, ny)) - {(mx, my)} = {}"
      by (simp add: group_has_liberty_excluding_iff get_group_at_stone_group)
    ultimately show ?R by blast
  next
    assume ?R
    then obtain nx ny where q: "adjacent (mx, my) (nx, ny)" "stone ?n ?g ?opp (nx, ny)"
      "liberties ?n ?g (stone_group ?n ?g ?opp (nx, ny)) - {(mx, my)} = {}"
      by auto
    then have "(nx, ny) \<in> set (neighbours mx my)" "in_bounds ?n nx ny" "cell ?g nx ny = ?opp"
      by (simp_all add: adjacent_pair)
    moreover from this q(3)
    have "\<not> group_has_liberty_excluding ?n ?g (get_group_at ?n ?g nx ny ?opp) ?opp mx my"
      by (simp add: group_has_liberty_excluding_iff get_group_at_stone_group)
    ultimately show ?L unfolding can_capture_anything_def by blast
  qed
  have own: "has_any_liberty ?n ?g mx my (current_player b) \<longleftrightarrow>
      liberties ?n ?g (stone_group ?n ?g (current_player b) (mx, my)) \<noteq> {}"
    using assms(2) by (simp add: has_any_liberty_def group_has_liberty_iff get_group_at_stone_group)
  from assms have "is_valid_move b mx my \<longleftrightarrow>
      can_capture_anything ?n ?g mx my ?opp \<or> has_any_liberty ?n ?g mx my (current_player b)"
    by (auto simp: is_valid_move_def Let_def)
  with cap own show ?thesis by simp
qed

theorem is_valid_move_capture_or_liberty_witness:
  "wf_grid (size_b (init_board 2)) (board (init_board 2)) \<and>
   in_bounds (size_b (init_board 2)) 0 0 \<and>
   cell (board (init_board 2)) 0 0 = 0 \<and>
   ko_point (init_board 2) \<noteq> Some (0, 0) \<and>
   is_valid_move (init_board 2) 0 0 \<and>
   liberties 2 (set_cell (board (init_board 2)) 0 0 1)
     (stone_group 2 (set_cell (board (init_board 2)) 0 0 1) 1 (0, 0)) \<noteq> {}"
proof -
  have h1: "wf_grid (size_b (init_board 2)) (board (init_board 2))"
    by (simp add: wf_grid_def init_board_def)
  have h2: "in_bounds (size_b (init_board 2)) 0 0"
    by (simp add: in_bounds_def init_board_def)
  have h3: "cell (board (init_board 2)) 0 0 = 0"
    by (simp add: cell_def init_board_def numeral_2_eq_2)
  have h4: "ko_point (init_board 2) \<noteq> Some (0, 0)"
    by (simp add: init_board_def)
  have v: "is_valid_move (init_board 2) 0 0" by code_simp
  have nocap: "\<not> (\<exists>q. adjacent (0, 0) q \<and>
      stone (size_b (init_board 2)) (set_cell (board (init_board 2)) 0 0 (current_player (init_board 2)))
        (3 - current_player (init_board 2)) q \<and>
      liberties (size_b (init_board 2)) (set_cell (board (init_board 2)) 0 0 (current_player (init_board 2)))
        (stone_group (size_b (init_board 2)) (set_cell (board (init_board 2)) 0 0 (current_player (init_board 2)))
          (3 - current_player (init_board 2)) q) - {(0, 0)} = {})"
    by (auto simp: adjacent_iff init_board_def in_bounds_def cell_def set_cell_def numeral_2_eq_2)
  from is_valid_move_capture_or_liberty [OF h1 h2 h3 h4] v nocap
  have "liberties (size_b (init_board 2)) (set_cell (board (init_board 2)) 0 0 (current_player (init_board 2)))
          (stone_group (size_b (init_board 2)) (set_cell (board (init_board 2)) 0 0 (current_player (init_board 2)))
            (current_player (init_board 2)) (0, 0)) \<noteq> {}"
    by blast
  then have "liberties 2 (set_cell (board (init_board 2)) 0 0 1)
     (stone_group 2 (set_cell (board (init_board 2)) 0 0 1) 1 (0, 0)) \<noteq> {}"
    by (simp add: init_board_def)
  with h1 h2 h3 h4 v show ?thesis by blast
qed

section \<open>Rejected moves leave the board alone\<close>

text \<open>
  C3. When \<open>is_valid_move\<close> is false, \<open>place_stone\<close> reports failure and the whole
  board state (grid, player to move, history, both capture counters, ko point, last
  move) is the state before the call.
\<close>

theorem place_stone_invalid_unchanged:
  "\<not> is_valid_move b mx my \<Longrightarrow>
     fst (fst (place_stone b mx my)) = False \<and> snd (place_stone b mx my) = b"
  by (simp add: place_stone_def)

theorem place_stone_invalid_unchanged_witness:
  "\<not> is_valid_move (init_board 1) 0 0 \<and>
   fst (fst (place_stone (init_board 1) 0 0)) = False \<and>
   snd (place_stone (init_board 1) 0 0) = init_board 1"
proof -
  have h: "\<not> is_valid_move (init_board 1) 0 0" by code_simp
  from place_stone_invalid_unchanged [OF h] h show ?thesis by blast
qed

section \<open>The list of legal moves\<close>

lemma is_valid_move_in_bounds: "is_valid_move b vx vy \<Longrightarrow> in_bounds (size_b b) vx vy"
  by (simp add: is_valid_move_def split: if_splits)

lemma is_valid_move_empty: "is_valid_move b vx vy \<Longrightarrow> cell (board b) vx vy = 0"
  by (simp add: is_valid_move_def split: if_splits)

lemma is_valid_move_not_ko: "is_valid_move b vx vy \<Longrightarrow> ko_point b \<noteq> Some (vx, vy)"
  by (auto simp: is_valid_move_def split: if_splits)

lemma set_get_valid_moves: "set (get_valid_moves b) = {(vx, vy). is_valid_move b vx vy}"
proof -
  have "set (get_valid_moves b) =
        {(vx, vy). 0 \<le> vx \<and> vx \<le> size_b b - 1 \<and> 0 \<le> vy \<and> vy \<le> size_b b - 1 \<and> is_valid_move b vx vy}"
    by (auto simp: get_valid_moves_def)
  also have "\<dots> = {(vx, vy). is_valid_move b vx vy}"
    using is_valid_move_in_bounds [of b] by (auto simp: in_bounds_def)
  finally show ?thesis .
qed

text \<open>
  C6. \<open>get_valid_moves\<close> returns exactly the coordinates at which \<open>is_valid_move\<close>
  holds, in row-major order and without repetition; no element is the ko point, an
  occupied cell or out of range; and the list can be empty, as on the board of size 1,
  whose only point is suicide.
\<close>

theorem get_valid_moves_exact:
  "set (get_valid_moves b) = {(vx, vy). is_valid_move b vx vy} \<and>
   sorted_wrt row_major_less (get_valid_moves b) \<and>
   distinct (get_valid_moves b) \<and>
   (\<forall>(vx, vy) \<in> set (get_valid_moves b).
      ko_point b \<noteq> Some (vx, vy) \<and> cell (board b) vx vy = 0 \<and> in_bounds (size_b b) vx vy) \<and>
   get_valid_moves (init_board 1) = []"
proof -
  have s: "sorted_wrt row_major_less (get_valid_moves b)"
    unfolding get_valid_moves_def by (rule rows_sorted) (rule sorted_wrt_upto)
  have "distinct (get_valid_moves b)"
    using s by (rule sorted_wrt_irrefl_distinct) (simp add: row_major_less_def)
  moreover have "get_valid_moves (init_board 1) = []" by code_simp
  ultimately show ?thesis
    using s is_valid_move_not_ko is_valid_move_empty is_valid_move_in_bounds
    by (auto simp: set_get_valid_moves)
qed

theorem get_valid_moves_exact_witness:
  "(0, 0) \<in> set (get_valid_moves (init_board 2)) \<and>
   ko_point (init_board 2) \<noteq> Some (0, 0) \<and>
   cell (board (init_board 2)) 0 0 = 0 \<and> in_bounds (size_b (init_board 2)) 0 0"
proof -
  have "(0, 0) \<in> set (get_valid_moves (init_board 2))" by code_simp
  with get_valid_moves_exact [of "init_board 2"] show ?thesis by blast
qed

section \<open>Counting stones and captures\<close>

text \<open>
  C8. In every state reachable from a fresh board of size \<open>n \<ge> 0\<close>, the numbers of
  black, white and empty cells sum to \<open>n\<^sup>2\<close>; no call of \<open>place_stone\<close> increases the
  number of stones of the opponent of the player to move; and neither \<open>place_stone\<close> nor
  \<open>pass_move\<close> decreases \<open>captured_black\<close> or \<open>captured_white\<close>.
\<close>

theorem reachable_counts:
  assumes "0 \<le> n" and "reachable n b"
  shows "int (count_cells (board b) 1 + count_cells (board b) 2 + count_cells (board b) 0) = n * n \<and>
         count_cells (board (snd (place_stone b mx my))) (3 - current_player b)
           \<le> count_cells (board b) (3 - current_player b) \<and>
         captured_black b \<le> captured_black (snd (place_stone b mx my)) \<and>
         captured_white b \<le> captured_white (snd (place_stone b mx my)) \<and>
         captured_black b \<le> captured_black (pass_move b) \<and>
         captured_white b \<le> captured_white (pass_move b)"
proof -
  from assms(2) have wf: "wf_board n b" by (rule reachable_wf_board)
  then have total: "int (count_cells (board b) 1 + count_cells (board b) 2 + count_cells (board b) 0) = n * n"
    using assms(1) count_cells_square [of n "board b"] by (simp add: wf_board_def)
  have opp: "count_cells (board (snd (place_stone b mx my))) (3 - current_player b)
           \<le> count_cells (board b) (3 - current_player b)"
  proof (cases "is_valid_move b mx my")
    case False
    then show ?thesis by (simp add: place_stone_def)
  next
    case True
    from wf have ne: "3 - current_player b \<noteq> 0" "current_player b \<noteq> 3 - current_player b"
      by (auto simp: wf_board_def)
    have "count_cells (remove_stones (captured_by b mx my) (placed_grid b mx my)) (3 - current_player b)
          \<le> count_cells (placed_grid b mx my) (3 - current_player b)"
      using ne(1) by (rule count_cells_remove_stones_le)
    also have "\<dots> \<le> count_cells (board b) (3 - current_player b)"
      unfolding placed_grid_def using ne(2) by (rule count_cells_set_cell_le)
    finally show ?thesis by (simp add: place_stone_valid(3) [OF True])
  qed
  have cb: "captured_black b \<le> captured_black (snd (place_stone b mx my))"
  proof (cases "is_valid_move b mx my")
    case True
    show ?thesis unfolding place_stone_valid(6) [OF True] by simp
  next
    case False
    then show ?thesis by (simp add: place_stone_def)
  qed
  have cw: "captured_white b \<le> captured_white (snd (place_stone b mx my))"
  proof (cases "is_valid_move b mx my")
    case True
    show ?thesis unfolding place_stone_valid(7) [OF True] by simp
  next
    case False
    then show ?thesis by (simp add: place_stone_def)
  qed
  have pb: "captured_black b \<le> captured_black (pass_move b)"
    by (simp add: pass_move_def Let_def)
  have pw: "captured_white b \<le> captured_white (pass_move b)"
    by (simp add: pass_move_def Let_def)
  from total opp cb cw pb pw show ?thesis by blast
qed

theorem reachable_counts_witness:
  "(0::int) \<le> 2 \<and> reachable 2 (snd (place_stone (init_board 2) 0 0)) \<and>
   int (count_cells (board (snd (place_stone (init_board 2) 0 0))) 1 +
        count_cells (board (snd (place_stone (init_board 2) 0 0))) 2 +
        count_cells (board (snd (place_stone (init_board 2) 0 0))) 0) = 2 * 2 \<and>
   count_cells (board (snd (place_stone (init_board 2) 0 0))) 1 = 1"
proof -
  have r: "reachable 2 (snd (place_stone (init_board 2) 0 0))"
    by (rule reachable.placed) (rule reachable.fresh)
  have c: "count_cells (board (snd (place_stone (init_board 2) 0 0))) 1 = 1"
    unfolding count_cells_def by code_simp
  from reachable_counts [OF _ r, of 0 0] r c show ?thesis by simp
qed

section \<open>Every group keeps a liberty\<close>

text \<open>
  C10. In every reachable state each stone's group (the connected component of its
  colour) has a liberty, which is also what the source's own \<open>_has_any_liberty\<close> reports
  for every stone; and a legal move never removes a stone of the mover, leaves the
  mover's stone on the point played, and leaves the group of that stone with a liberty.
\<close>

theorem groups_keep_liberty:
  assumes "reachable n b"
  shows "(\<forall>p q. p \<noteq> 0 \<longrightarrow> stone n (board b) p q \<longrightarrow>
            liberties n (board b) (stone_group n (board b) p q) \<noteq> {} \<and>
            has_any_liberty n (board b) (fst q) (snd q) p) \<and>
         (is_valid_move b mx my \<longrightarrow>
            (\<forall>q. stone n (board b) (current_player b) q \<longrightarrow>
                 stone n (board (snd (place_stone b mx my))) (current_player b) q) \<and>
            cell (board (snd (place_stone b mx my))) mx my = current_player b \<and>
            liberties n (board (snd (place_stone b mx my)))
              (stone_group n (board (snd (place_stone b mx my))) (current_player b) (mx, my)) \<noteq> {})"
proof (intro conjI allI impI)
  fix p :: int and q assume p0: "p \<noteq> 0" and st: "stone n (board b) p q"
  from assms have "all_alive n (board b)" by (rule reachable_all_alive)
  with p0 st show l: "liberties n (board b) (stone_group n (board b) p q) \<noteq> {}"
    unfolding all_alive_def by blast
  from st have "in_bounds n (fst q) (snd q)" by (simp add: stone_def)
  then have "get_group_at n (board b) (fst q) (snd q) p = stone_group n (board b) p q"
    by (simp add: get_group_at_stone_group)
  with l show "has_any_liberty n (board b) (fst q) (snd q) p"
    by (simp add: has_any_liberty_def group_has_liberty_iff)
next
  assume v: "is_valid_move b mx my"
  from assms have wf: "wf_board n b" by (rule reachable_wf_board)
  then have me: "current_player b \<noteq> 0" and n: "size_b b = n" by (auto simp: wf_board_def)
  have "(mx, my) \<notin> captured_by b mx my"
    using captured_by_opponent(2) [OF wf v] by blast
  then have mine: "stone n (board (snd (place_stone b mx my))) (current_player b) (mx, my)"
    unfolding stone_after_place [OF wf v] by simp
  then show "cell (board (snd (place_stone b mx my))) mx my = current_player b" by simp
  have "reachable n (snd (place_stone b mx my))" using assms by (rule reachable.placed)
  then have "all_alive n (board (snd (place_stone b mx my)))" by (rule reachable_all_alive)
  with me mine show "liberties n (board (snd (place_stone b mx my)))
      (stone_group n (board (snd (place_stone b mx my))) (current_player b) (mx, my)) \<noteq> {}"
    unfolding all_alive_def by blast
  fix q assume q: "stone n (board b) (current_player b) q"
  have "q \<notin> captured_by b mx my"
  proof
    assume "q \<in> captured_by b mx my"
    with wf v have "stone n (board b) (3 - current_player b) q" by (rule captured_by_opponent(1))
    with q have "3 - current_player b = current_player b" by (simp add: stone_def)
    with wf_board_players(3) [OF wf] show False by simp
  qed
  with q show "stone n (board (snd (place_stone b mx my))) (current_player b) q"
    by (simp add: stone_after_place [OF wf v])
qed

theorem groups_keep_liberty_witness:
  "reachable 2 (play (init_board 2) [(0, 0)]) \<and>
   stone 2 (board (play (init_board 2) [(0, 0)])) 1 (0, 0) \<and>
   liberties 2 (board (play (init_board 2) [(0, 0)]))
     (stone_group 2 (board (play (init_board 2) [(0, 0)])) 1 (0, 0)) \<noteq> {} \<and>
   is_valid_move (play (init_board 2) [(0, 0)]) 1 1 \<and>
   cell (board (snd (place_stone (play (init_board 2) [(0, 0)]) 1 1))) 1 1 = 2"
proof -
  let ?b = "play (init_board 2) [(0, 0)]"
  have r: "reachable 2 ?b" by (rule reachable_play) (rule reachable.fresh)
  have s: "stone 2 (board ?b) 1 (0, 0)" unfolding stone_def by code_simp
  have v: "is_valid_move ?b 1 1" by code_simp
  have cp: "current_player ?b = 2" by code_simp
  from groups_keep_liberty [OF r, of 1 1] s v cp r show ?thesis by auto
qed

section \<open>The ko point lasts one move\<close>

text \<open>
  C2. In a reachable state a ko point \<open>k\<close> is there only as the result of the legal
  placement that produced the state, one that captured exactly the stone at \<open>k\<close> and left
  the group of the stone played with exactly one liberty. While it stands, \<open>k\<close> is
  illegal. \<open>pass_move\<close> clears it, and a legal placement sets the ko point to nothing or to
  a different point: after either, \<open>k\<close> is no longer the ko point.
\<close>

theorem ko_point_one_move:
  assumes "reachable n b" and "ko_point b = Some k"
  shows "(\<exists>b0 mx my. reachable n b0 \<and> is_valid_move b0 mx my \<and> b = snd (place_stone b0 mx my) \<and>
            captured_by b0 mx my = {k} \<and>
            card (liberties n (board b) (stone_group n (board b) (current_player b0) (mx, my))) = 1) \<and>
         \<not> is_valid_move b (fst k) (snd k) \<and>
         ko_point (pass_move b) = None \<and>
         (\<forall>mx my. is_valid_move b mx my \<longrightarrow> ko_point (snd (place_stone b mx my)) \<noteq> Some k)"
proof (intro conjI allI impI)
  show "\<exists>b0 mx my. reachable n b0 \<and> is_valid_move b0 mx my \<and> b = snd (place_stone b0 mx my) \<and>
            captured_by b0 mx my = {k} \<and>
            card (liberties n (board b) (stone_group n (board b) (current_player b0) (mx, my))) = 1"
    using assms by (rule ko_point_origin)
  show "\<not> is_valid_move b (fst k) (snd k)"
    using assms(2) by (simp add: is_valid_move_def)
  show "ko_point (pass_move b) = None" by (simp add: pass_move_def Let_def)
next
  fix mx my assume v: "is_valid_move b mx my"
  from assms(1) have wf: "wf_board n b" by (rule reachable_wf_board)
  from assms have empty: "stone n (board b) 0 k" by (rule ko_point_empty)
  show "ko_point (snd (place_stone b mx my)) \<noteq> Some k"
  proof
    assume "ko_point (snd (place_stone b mx my)) = Some k"
    with v have "k \<in> captured_by b mx my" by (simp add: ko_point_place(1))
    with wf v have "stone n (board b) (3 - current_player b) k" by (rule captured_by_opponent(1))
    with empty have "3 - current_player b = 0" by (simp add: stone_def)
    with wf_board_players(2) [OF wf] show False by simp
  qed
qed

definition ko_example :: go_board where
  "ko_example = play (init_board 4)
     [(1, 0), (2, 0), (0, 1), (3, 1), (1, 2), (2, 2), (0, 3), (1, 1), (2, 1)]"

theorem ko_point_one_move_witness:
  "reachable 4 ko_example \<and> ko_point ko_example = Some (1, 1) \<and>
   \<not> is_valid_move ko_example 1 1 \<and>
   ko_point (pass_move ko_example) = None \<and>
   is_valid_move ko_example 3 3 \<and>
   ko_point (snd (place_stone ko_example 3 3)) \<noteq> Some (1, 1) \<and>
   is_valid_move (snd (place_stone ko_example 3 3)) 1 1"
proof -
  have r: "reachable 4 ko_example"
    unfolding ko_example_def by (rule reachable_play) (rule reachable.fresh)
  have k: "ko_point ko_example = Some (1, 1)" by code_simp
  have v: "is_valid_move ko_example 3 3" by code_simp
  have v2: "is_valid_move (snd (place_stone ko_example 3 3)) 1 1" by code_simp
  from ko_point_one_move [OF r k] v v2 r k show ?thesis by auto
qed

section \<open>The score\<close>

text \<open>
  C5. On a square board of size \<open>n\<close> with cells 0, 1, 2, \<open>get_score\<close> returns for Black the stones
  Black captured plus the black stones plus Black's territory, and for White the same
  plus the komi 6.5. The territory of a colour is the set of empty cells whose region
  (connected component of empty cells) touches that colour and not the other, so a
  region touching both colours or none counts for neither; \<open>_get_territory_owner\<close>
  returns 1 or 2 exactly on these sets. On an empty board of any size the score is
  \<open>(0, 6.5)\<close>.
\<close>

theorem get_score_counts:
  assumes "size_b b = n" and "wf_grid n (board b)" and "cells_ok (board b)"
  shows "get_score b =
           (captured_black b + int (card (stones_of n (board b) 1))
              + int (card (territory_of n (board b) 1)),
            of_int (captured_white b) + 13 / 2 + of_nat (card (stones_of n (board b) 2))
              + of_nat (card (territory_of n (board b) 2))) \<and>
         (\<forall>tx ty. in_bounds n tx ty \<longrightarrow>
            (get_territory_owner n (board b) tx ty = 1 \<longleftrightarrow> (tx, ty) \<in> territory_of n (board b) 1) \<and>
            (get_territory_owner n (board b) tx ty = 2 \<longleftrightarrow> (tx, ty) \<in> territory_of n (board b) 2)) \<and>
         get_score (init_board m) = (0, 13 / 2)"
proof (intro conjI allI impI)
  show "get_score b =
           (captured_black b + int (card (stones_of n (board b) 1))
              + int (card (territory_of n (board b) 1)),
            of_int (captured_white b) + 13 / 2 + of_nat (card (stones_of n (board b) 2))
              + of_nat (card (territory_of n (board b) 2)))"
    using assms by (rule get_score_eq)
  show "get_score (init_board m) = (0, 13 / 2)" by (rule get_score_init)
next
  fix tx ty assume inb: "in_bounds n tx ty"
  note wf = assms(2,3)
  show "get_territory_owner n (board b) tx ty = 1 \<longleftrightarrow> (tx, ty) \<in> territory_of n (board b) 1"
    by (simp add: get_territory_owner_eq [OF wf inb])
  show "get_territory_owner n (board b) tx ty = 2 \<longleftrightarrow> (tx, ty) \<in> territory_of n (board b) 2"
    using territory_disjoint [of "(tx, ty)" n "board b"]
    by (auto simp: get_territory_owner_eq [OF wf inb])
qed

theorem get_score_counts_witness:
  "size_b ko_example = 4 \<and> wf_grid 4 (board ko_example) \<and> cells_ok (board ko_example) \<and>
   in_bounds 4 0 0 \<and>
   get_score ko_example = (9, 21 / 2) \<and>
   captured_black ko_example + int (card (stones_of 4 (board ko_example) 1))
     + int (card (territory_of 4 (board ko_example) 1)) = 9 \<and>
   (0, 0) \<in> territory_of 4 (board ko_example) 1"
proof -
  have r: "reachable 4 ko_example"
    unfolding ko_example_def by (rule reachable_play) (rule reachable.fresh)
  then have "wf_board 4 ko_example" by (rule reachable_wf_board)
  then have wf: "size_b ko_example = 4" "wf_grid 4 (board ko_example)" "cells_ok (board ko_example)"
    by (simp_all add: wf_board_def)
  have inb: "in_bounds 4 0 0" by (simp add: in_bounds_def)
  have sc: "get_score ko_example = (9, 21 / 2)" by code_simp
  have ow: "get_territory_owner 4 (board ko_example) 0 0 = 1" by code_simp
  from get_score_counts [OF wf] sc ow inb wf show ?thesis by auto
qed

section \<open>Moves after the end of the game\<close>

text \<open>
  C4. The board does not refuse moves once the game is over. In every well-formed state
  where \<open>is_game_over\<close> holds, \<open>pass_move\<close> still appends a pass, gives the turn to the other
  player and clears the ko point, so the state changes and the game is still over;
  \<open>place_stone\<close> at a point that \<open>is_valid_move\<close> accepts reports success, puts the mover's
  stone on the empty point and appends the move to the history, so the state changes as
  well; at any other point it gives the ordinary failure for an invalid position and
  leaves the state as it was. No result tells the caller that the game has ended.
\<close>

theorem game_over_moves_accepted:
  assumes "wf_board n b" and "is_game_over b"
  shows "pass_move b = b\<lparr>move_history := move_history b @
                           [\<lparr>x = - 1, y = - 1, player = current_player b, captured = 0\<rparr>],
                         current_player := 3 - current_player b, ko_point := None\<rparr> \<and>
         pass_move b \<noteq> b \<and>
         is_game_over (pass_move b) \<and>
         (is_valid_move b mx my \<longrightarrow>
            fst (place_stone b mx my) = (True, Placed (card (captured_by b mx my))) \<and>
            cell (board b) mx my = 0 \<and>
            cell (board (snd (place_stone b mx my))) mx my = current_player b \<and>
            current_player b \<noteq> 0 \<and>
            move_history (snd (place_stone b mx my)) = move_history b @
              [\<lparr>x = mx, y = my, player = current_player b,
                captured = int (card (captured_by b mx my))\<rparr>] \<and>
            snd (place_stone b mx my) \<noteq> b) \<and>
         (\<not> is_valid_move b mx my \<longrightarrow> place_stone b mx my = ((False, Invalid_position), b))"
proof -
  have d: "pass_move b = b\<lparr>move_history := move_history b @
                           [\<lparr>x = - 1, y = - 1, player = current_player b, captured = 0\<rparr>],
                         current_player := 3 - current_player b, ko_point := None\<rparr>"
    by (simp add: pass_move_def Let_def)
  have "length (move_history (pass_move b)) \<noteq> length (move_history b)"
    unfolding d by simp
  then have ne: "pass_move b \<noteq> b" by auto
  from assms(2) have "2 \<le> length (move_history b)" and "x (last (move_history b)) = - 1"
    by (auto simp: is_game_over_def split: if_splits)
  moreover from this(1) have "move_history b \<noteq> []" by auto
  ultimately have e: "is_game_over (pass_move b)"
    unfolding d by (simp add: is_game_over_def butlast_append)
  have v: "fst (place_stone b mx my) = (True, Placed (card (captured_by b mx my))) \<and>
            cell (board b) mx my = 0 \<and>
            cell (board (snd (place_stone b mx my))) mx my = current_player b \<and>
            current_player b \<noteq> 0 \<and>
            move_history (snd (place_stone b mx my)) = move_history b @
              [\<lparr>x = mx, y = my, player = current_player b,
                captured = int (card (captured_by b mx my))\<rparr>] \<and>
            snd (place_stone b mx my) \<noteq> b" if valid: "is_valid_move b mx my"
  proof -
    have 1: "fst (place_stone b mx my) = (True, Placed (card (captured_by b mx my)))"
      using valid by (rule place_stone_valid(1))
    have 2: "cell (board b) mx my = 0" using valid by (rule is_valid_move_empty)
    from assms(1) have n: "size_b b = n" by (simp add: wf_board_def)
    from valid have inb: "in_bounds n mx my" using n by (auto simp: is_valid_move_iff)
    have not_cap: "(mx, my) \<notin> captured_by b mx my"
      using captured_by_opponent(2) [OF assms(1) valid] by blast
    have "stone n (board (snd (place_stone b mx my))) (current_player b) (mx, my)"
      unfolding stone_after_place [OF assms(1) valid] using not_cap by simp
    then have 3: "cell (board (snd (place_stone b mx my))) mx my = current_player b"
      by (simp add: stone_def)
    have 4: "current_player b \<noteq> 0" using assms(1) by (rule wf_board_players(1))
    have 5: "move_history (snd (place_stone b mx my)) = move_history b @
              [\<lparr>x = mx, y = my, player = current_player b,
                captured = int (card (captured_by b mx my))\<rparr>]"
      using valid by (rule place_stone_valid(5))
    then have "length (move_history (snd (place_stone b mx my))) \<noteq> length (move_history b)"
      by simp
    then have 6: "snd (place_stone b mx my) \<noteq> b" by auto
    from 1 2 3 4 5 6 show ?thesis by blast
  qed
  have i: "\<not> is_valid_move b mx my \<longrightarrow> place_stone b mx my = ((False, Invalid_position), b)"
    by (simp add: place_stone_def)
  from d ne e v i show ?thesis by blast
qed

theorem game_over_moves_accepted_witness:
  "wf_board 2 over_example \<and> is_game_over over_example \<and> is_valid_move over_example 0 0 \<and>
   pass_move over_example \<noteq> over_example \<and>
   length (move_history over_example) = 2 \<and>
   length (move_history (pass_move over_example)) = 3 \<and>
   is_game_over (pass_move over_example) \<and>
   fst (place_stone over_example 0 0) = (True, Placed 0) \<and>
   cell (board over_example) 0 0 = 0 \<and>
   cell (board (snd (place_stone over_example 0 0))) 0 0 = 1 \<and>
   length (move_history (snd (place_stone over_example 0 0))) = 3 \<and>
   snd (place_stone over_example 0 0) \<noteq> over_example \<and>
   \<not> is_valid_move over_example 5 5 \<and>
   place_stone over_example 5 5 = ((False, Invalid_position), over_example)"
proof -
  have "reachable 2 over_example"
    unfolding over_example_def by (rule reachable_play) (rule reachable.fresh)
  then have 0: "wf_board 2 over_example" by (rule reachable_wf_board)
  have 1: "is_game_over over_example" by code_simp
  have 2: "is_valid_move over_example 0 0" by code_simp
  have 3: "length (move_history over_example) = 2" by code_simp
  have 4: "current_player over_example = 1" by code_simp
  have 5: "fst (place_stone over_example 0 0) = (True, Placed 0)" by code_simp
  have 6: "length (move_history (pass_move over_example)) = 3" by code_simp
  have 7: "length (move_history (snd (place_stone over_example 0 0))) = 3" by code_simp
  note t = game_over_moves_accepted [OF 0 1, of 0 0]
  from t have a: "pass_move over_example \<noteq> over_example" by blast
  from t have b: "is_game_over (pass_move over_example)" by blast
  from t 2 have c: "cell (board over_example) 0 0 = 0" by blast
  from t 2 have "cell (board (snd (place_stone over_example 0 0))) 0 0 = current_player over_example"
    by blast
  then have d: "cell (board (snd (place_stone over_example 0 0))) 0 0 = 1" unfolding 4 .
  from t 2 have e: "snd (place_stone over_example 0 0) \<noteq> over_example" by blast
  have 8: "\<not> is_valid_move over_example 5 5" by code_simp
  from game_over_moves_accepted [OF 0 1, of 5 5] 8
  have f: "place_stone over_example 5 5 = ((False, Invalid_position), over_example)" by blast
  from 0 1 2 3 5 6 7 8 a b c d e f show ?thesis by blast
qed

section \<open>The selector lets an evaluator failure escape\<close>

text \<open>
  C7. With difficulty \<open>hard\<close>, \<open>get_move\<close> has no fallback: whenever some legal point has
  fewer than two friendly neighbours and an efficiency above 12, \<open>_evaluate_shape\<close>
  raises \<open>NameError\<close> there and \<open>get_move\<close> ends with that exception instead of returning
  a move. The position after the 37 moves of \<open>columns_game\<close> is such a state.
\<close>

theorem get_move_hard_raises:
  assumes "ai_difficulty ai = ''hard''"
    and "is_valid_move b cx cy"
    and "friendly_neighbours ai b cx cy < 2"
    and "calculate_efficiency ai b cx cy > 12"
  shows "get_move ai b rnd choice = Inl NameError"
proof -
  from assms(3) have "\<not> makes_good_shape ai b cx cy" "\<not> makes_bad_shape ai b cx cy"
    by (simp_all add: makes_good_shape_def makes_bad_shape_def Let_def)
  with assms(4) have sh: "evaluate_shape ai b (fst (cx, cy)) (snd (cx, cy)) = Inl NameError"
    by (simp add: evaluate_shape_def Let_def)
  from assms(2) have mem: "(cx, cy) \<in> set (get_valid_moves b)"
    by (simp add: set_get_valid_moves)
  then have ne: "get_valid_moves b \<noteq> []" by auto
  from mem sh have "advanced_loop ai b rnd (get_valid_moves b) 0 None None [] = Inl NameError"
    by (rule advanced_loop_error)
  with ne assms(1) show ?thesis
    by (simp add: get_move_def Let_def get_move_advanced_def)
qed

theorem get_move_hard_raises_witness:
  "reachable 9 columns_example \<and>
   is_valid_move columns_example 4 1 \<and>
   friendly_neighbours (advanced_ai_init (init_board 9) 2 ''hard'') columns_example 4 1 < 2 \<and>
   calculate_efficiency (advanced_ai_init (init_board 9) 2 ''hard'') columns_example 4 1 = 31 / 2 \<and>
   get_move (advanced_ai_init (init_board 9) 2 ''hard'') columns_example (\<lambda>_. 0) 0 = Inl NameError"
proof -
  let ?ai = "advanced_ai_init (init_board 9) 2 ''hard''"
  have r: "reachable 9 columns_example"
    unfolding columns_example_def by (rule reachable_play) (rule reachable.fresh)
  have d: "ai_difficulty ?ai = ''hard''" by (simp add: advanced_ai_init_def)
  have v: "is_valid_move columns_example 4 1" by code_simp
  have f: "friendly_neighbours ?ai columns_example 4 1 < 2" by code_simp
  have e: "calculate_efficiency ?ai columns_example 4 1 = 31 / 2" by code_simp
  then have e': "calculate_efficiency ?ai columns_example 4 1 > 12" by simp
  from get_move_hard_raises [OF d v f e'] r v f e show ?thesis by blast
qed

section \<open>The game phase is fixed when the selector is built\<close>

text \<open>
  C9. The phase an evaluation uses is the one computed by the constructor. A selector
  built on the fresh board, as the game manager builds it, still evaluates with
  \<open>opening\<close> after 41 moves, where the thresholds give \<open>middlegame\<close>; at the centre point it
  returns the opening's score, not the one a selector built at that moment returns.
\<close>

theorem stale_game_phase:
  "length (move_history later_example) = 41 \<and>
   determine_game_phase 41 = ''middlegame'' \<and>
   ai_game_phase (advanced_ai_init (init_board 9) 2 ''medium'') = ''opening'' \<and>
   evaluate_position_advanced (advanced_ai_init (init_board 9) 2 ''medium'') later_example 4 4
     = (12, [Third_fourth_line]) \<and>
   evaluate_position_advanced (advanced_ai_init later_example 2 ''medium'') later_example 4 4
     = (30, [Near_fight])"
proof -
  have 1: "length (move_history later_example) = 41" by code_simp
  have 2: "determine_game_phase 41 = ''middlegame''" by (simp add: determine_game_phase_def)
  have 3: "ai_game_phase (advanced_ai_init (init_board 9) 2 ''medium'') = ''opening''"
    by (simp add: advanced_ai_init_def init_board_def determine_game_phase_def)
  have 4: "evaluate_position_advanced (advanced_ai_init (init_board 9) 2 ''medium'') later_example 4 4
     = (12, [Third_fourth_line])" by code_simp
  have 5: "evaluate_position_advanced (advanced_ai_init later_example 2 ''medium'') later_example 4 4
     = (30, [Near_fight])" by code_simp
  from 1 2 3 4 5 show ?thesis by blast
qed

end
